theory Spec2Isabelle
  imports Complex_Main "HOL-Library.Multiset"
begin

section \<open>Numbers, errors and the p5 helpers\<close>

text \<open>
  The sketches are p5.js programs. A JavaScript number is modelled as a \<^typ>\<open>real\<close>:
  arithmetic is exact, so rounding of IEEE doubles is outside the model. Array indices and
  loop counters that only ever hold small non-negative integers are \<^typ>\<open>nat\<close>, the
  Voronoi sample coordinates (multiples of 16 shifted by the domain corner) are
  \<^typ>\<open>int\<close>. Reading a property of \<open>undefined\<close> raises a \<open>TypeError\<close> in JavaScript;
  every such read is a branch of the model.
\<close>

datatype error = TypeError

text \<open>p5's \<open>dist(x1, y1, x2, y2)\<close>: the Euclidean distance of two points of the plane.\<close>

definition dist_p5 :: "real \<Rightarrow> real \<Rightarrow> real \<Rightarrow> real \<Rightarrow> real" where
  "dist_p5 x1 y1 x2 y2 = sqrt ((x2 - x1)\<^sup>2 + (y2 - y1)\<^sup>2)"

text \<open>
  p5's \<open>map(n, start1, stop1, start2, stop2)\<close>: linear re-mapping of a range. The sketches
  call it with \<open>stop1 \<noteq> start1\<close> only (20 columns, 14 rows, keyboard rows of 10, 9 and 7
  keys); for \<open>stop1 = start1\<close> JavaScript gives \<open>NaN\<close> or an infinity, which the model does
  not represent.
\<close>

definition map_p5 :: "real \<Rightarrow> real \<Rightarrow> real \<Rightarrow> real \<Rightarrow> real \<Rightarrow> real" where
  "map_p5 n start1 stop1 start2 stop2 = (n - start1) / (stop1 - start1) * (stop2 - start2) + start2"

text \<open>
  A JavaScript string is a \<^typ>\<open>string\<close>, the list of the bytes of its UTF-8 encoding.
  \<open>String.prototype.toLowerCase\<close> is the Unicode case mapping of the language, not code of
  the sketches: the key handlers below take it as a parameter, and what is proved of them
  holds for every function on strings. \<open>ascii_lower\<close> is that mapping on the strings of
  ASCII characters: an upper-case letter is replaced by the lower-case letter at the same
  place of the alphabet, every other ASCII character is kept. It is used to run the
  handlers on ASCII keys only.
\<close>

definition ascii_lower :: "string \<Rightarrow> string" where
  "ascii_lower s =
     map (\<lambda>c. case map_of (zip ''ABCDEFGHIJKLMNOPQRSTUVWXYZ'' ''abcdefghijklmnopqrstuvwxyz'') c of
               None \<Rightarrow> c
             | Some l \<Rightarrow> l) s"

section \<open>The data model\<close>

text \<open>
  The object literals of the sketches. A muscle node is \<open>{x, y, force}\<close>, a mesh point
  \<open>{x, y, vx, vy, rest_x, rest_y}\<close>, a sperm cell \<open>{x, y, vx, vy, img, meshIdx, scale, angle,
  angleSpeed}\<close>. The records share their leading fields by extension, so that \<open>x\<close>, \<open>y\<close>,
  \<open>vx\<close> and \<open>vy\<close> keep the names of the source on every object. A property that a variant
  of the sketch does not set (\<open>meshIdx\<close> in the scatter variant) is \<open>None\<close>.
\<close>

record pos =
  x :: real
  y :: real

record node = pos +
  force :: real

record body = pos +
  vx :: real
  vy :: real

record point = body +
  rest_x :: real
  rest_y :: real

record 'img cell = body +
  img :: 'img
  meshIdx :: "(nat \<times> nat) option"
  scale :: real
  angle :: real
  angleSpeed :: real

text \<open>
  The module-level variables of the mesh sketch: \<open>cols\<close>, \<open>rows_\<close> (here \<open>rows\<close>: an
  Isabelle name cannot end with an underscore), \<open>mesh\<close>, \<open>nodes\<close> and \<open>keyToNode\<close>. The
  field \<open>keyToNode\<close> holds the own properties of the object, which \<open>setup()\<close> creates as
  \<open>{}\<close>; the object also inherits the properties of \<open>Object.prototype\<close>, whose names are
  listed in \<open>object_prototype_names\<close>.
\<close>

record sketch =
  cols :: nat
  rows :: nat
  mesh :: "point list list"
  nodes :: "node list"
  keyToNode :: "string \<rightharpoonup> nat"

definition object_prototype_names :: "string list" where
  "object_prototype_names =
     [''constructor'', ''__defineGetter__'', ''__defineSetter__'', ''hasOwnProperty'',
      ''__lookupGetter__'', ''__lookupSetter__'', ''isPrototypeOf'', ''propertyIsEnumerable'',
      ''toString'', ''valueOf'', ''__proto__'', ''toLocaleString'']"

section \<open>Keyboard control of the muscle nodes\<close>

text \<open>
  \<^verbatim>\<open>function keyPressed() { let k = key.toLowerCase();
    if (k in keyToNode) { nodes[keyToNode[k]].force = 1; } }\<close>
  and \<open>keyReleased\<close> with \<open>force = 0\<close>. The test \<open>k in keyToNode\<close> holds for the own
  properties of \<open>keyToNode\<close> and for the inherited ones. For an own property
  \<open>keyToNode[k]\<close> is the stored index \<open>i\<close>; for an inherited one it is a function or an
  object, which is no index of \<open>nodes\<close>. Writing \<open>.force\<close> on \<open>nodes[...]\<close> where that is
  \<open>undefined\<close> (an index past the end of \<open>nodes\<close>, or no index at all) is a \<open>TypeError\<close>.
\<close>

definition keyPressed :: "(string \<Rightarrow> string) \<Rightarrow> string \<Rightarrow> sketch \<Rightarrow> error + sketch" where
  "keyPressed toLowerCase key st =
     (let k = toLowerCase key in
      if k \<in> dom (keyToNode st) \<or> k \<in> set object_prototype_names
      then case keyToNode st k of
             Some i \<Rightarrow>
               if i < length (nodes st)
               then Inr (st\<lparr>nodes := (nodes st)[i := (nodes st ! i)\<lparr>force := 1\<rparr>]\<rparr>)
               else Inl TypeError
           | None \<Rightarrow> Inl TypeError
      else Inr st)"

definition keyReleased :: "(string \<Rightarrow> string) \<Rightarrow> string \<Rightarrow> sketch \<Rightarrow> error + sketch" where
  "keyReleased toLowerCase key st =
     (let k = toLowerCase key in
      if k \<in> dom (keyToNode st) \<or> k \<in> set object_prototype_names
      then case keyToNode st k of
             Some i \<Rightarrow>
               if i < length (nodes st)
               then Inr (st\<lparr>nodes := (nodes st)[i := (nodes st ! i)\<lparr>force := 0\<rparr>]\<rparr>)
               else Inl TypeError
           | None \<Rightarrow> Inl TypeError
      else Inr st)"

section \<open>Setup of the mesh sketch\<close>

text \<open>
  \<open>setup()\<close> of the mesh sketch (domain \<open>[-400, 400] \<times> [-250, 250]\<close>). The mesh is built
  row by row from \<open>cols\<close> and \<open>rows_\<close>; the muscle nodes follow the three keyboard rows, and
  \<open>keyToNode[key] = nodes.length - 1\<close> records the index of the node just pushed.
\<close>

function setup_mesh_row :: "nat \<Rightarrow> nat \<Rightarrow> nat \<Rightarrow> nat \<Rightarrow> point list \<Rightarrow> point list" where
  "setup_mesh_row cs rs my mx meshRow =
     (if mx < cs
      then setup_mesh_row cs rs my (Suc mx)
             (meshRow @
              [\<lparr>x = map_p5 (real mx) 0 (real cs - 1) (-400) 400,
                y = map_p5 (real my) 0 (real rs - 1) (-250) 250,
                vx = 0, vy = 0,
                rest_x = map_p5 (real mx) 0 (real cs - 1) (-400) 400,
                rest_y = map_p5 (real my) 0 (real rs - 1) (-250) 250\<rparr>])
      else meshRow)"
  by pat_completeness auto
termination
  by (relation "measure (\<lambda>(cs, rs, my, mx, meshRow). cs - mx)") auto

function setup_mesh :: "nat \<Rightarrow> nat \<Rightarrow> nat \<Rightarrow> point list list \<Rightarrow> point list list" where
  "setup_mesh cs rs my m =
     (if my < rs
      then setup_mesh cs rs (Suc my) (m @ [setup_mesh_row cs rs my 0 []])
      else m)"
  by pat_completeness auto
termination
  by (relation "measure (\<lambda>(cs, rs, my, m). rs - my)") auto

definition keyboardRows :: "string list" where
  "keyboardRows = [''qwertyuiop'', ''asdfghjkl'', ''zxcvbnm'']"

function setup_keys ::
  "string \<Rightarrow> real \<Rightarrow> nat \<Rightarrow> node list \<times> (string \<rightharpoonup> nat) \<Rightarrow> node list \<times> (string \<rightharpoonup> nat)"
where
  "setup_keys keys ny col (ns, k2n) =
     (if col < length keys
      then let nx = map_p5 (real col) 0 (real (length keys) - 1) (-400) 400;
               key = [keys ! col];
               ns' = ns @ [\<lparr>x = nx, y = ny, force = 0\<rparr>]
           in setup_keys keys ny (Suc col) (ns', k2n(key \<mapsto> length ns' - 1))
      else (ns, k2n))"
  by pat_completeness auto
termination
  by (relation "measure (\<lambda>(keys, ny, col, acc). length keys - col)") auto

function setup_nodes ::
  "string list \<Rightarrow> nat \<Rightarrow> node list \<times> (string \<rightharpoonup> nat) \<Rightarrow> node list \<times> (string \<rightharpoonup> nat)"
where
  "setup_nodes krows row acc =
     (if row < length krows
      then setup_nodes krows (Suc row)
             (setup_keys (krows ! row)
                (map_p5 (real row) 0 (real (length krows) - 1) (-250) 250) 0 acc)
      else acc)"
  by pat_completeness auto
termination
  by (relation "measure (\<lambda>(krows, row, acc). length krows - row)") auto

declare setup_mesh_row.simps [simp del] setup_mesh.simps [simp del]
  setup_keys.simps [simp del] setup_nodes.simps [simp del]

text \<open>The module-level initialisers, then \<open>setup()\<close>.\<close>

definition initial :: sketch where
  "initial = \<lparr>cols = 20, rows = 14, mesh = [], nodes = [], keyToNode = Map.empty\<rparr>"

definition setup_sketch :: "sketch \<Rightarrow> sketch" where
  "setup_sketch st =
     (let m = setup_mesh (cols st) (rows st) 0 (mesh st);
          (ns, k2n) = setup_nodes keyboardRows 0 ([], Map.empty)
      in st\<lparr>mesh := m, nodes := ns, keyToNode := k2n\<rparr>)"

section \<open>The mesh physics pass of \<open>draw()\<close>\<close>

text \<open>
  The inner loop \<^verbatim>\<open>for (let node of nodes)\<close> of the physics pass, with the accumulators
  \<open>fx\<close> and \<open>fy\<close>: a node pulls the point when \<open>node.force > 0\<close> and its distance \<open>d\<close> to the
  point is below 180.
\<close>

fun pull_nodes :: "node list \<Rightarrow> point \<Rightarrow> real \<times> real \<Rightarrow> real \<times> real" where
  "pull_nodes [] p (fx, fy) = (fx, fy)"
| "pull_nodes (nd # ns) p (fx, fy) =
     (let d = dist_p5 (x p) (y p) (x nd) (y nd) in
      if force nd > 0 \<and> d < 180
      then let strength = 3 * force nd * (180 - d) / 180
           in pull_nodes ns p (fx + (x nd - x p) * strength * 0.01, fy + (y nd - y p) * strength * 0.01)
      else pull_nodes ns p (fx, fy))"

text \<open>
  The body of the two loops over the mesh, for the point \<open>p = mesh[y][x]\<close>: the spring to
  the rest position, the pull of the nodes, then the four assignments to \<open>p.vx\<close>, \<open>p.vy\<close>,
  \<open>p.x\<close> and \<open>p.y\<close>, in the order of the source. The spring coefficient \<open>k\<close> is the only
  literal in which the four sketches differ (0.08 in the two mesh sketches, 0.04 in
  \<open>sperm.js\<close> and \<open>sperm2.js\<close>).
\<close>

definition update_point :: "real \<Rightarrow> node list \<Rightarrow> point \<Rightarrow> point" where
  "update_point k ns p =
     (let fx = (rest_x p - x p) * k;
          fy = (rest_y p - y p) * k;
          (fx, fy) = pull_nodes ns p (fx, fy);
          p = p\<lparr>vx := (vx p + fx) * 0.88\<rparr>;
          p = p\<lparr>vy := (vy p + fy) * 0.88\<rparr>;
          p = p\<lparr>x := x p + vx p\<rparr>;
          p = p\<lparr>y := y p + vy p\<rparr>
      in p)"

text \<open>
  The loops \<^verbatim>\<open>for (let y = 0; y < rows_; y++) for (let x = 0; x < cols; x++)\<close>, updating
  \<open>mesh[y][x]\<close> in place. Reading \<open>mesh[y][x]\<close> outside the mesh, and then a field of it,
  is a \<open>TypeError\<close>.
\<close>

function physics_row ::
  "real \<Rightarrow> node list \<Rightarrow> nat \<Rightarrow> nat \<Rightarrow> nat \<Rightarrow> point list list \<Rightarrow> error + point list list"
where
  "physics_row k ns cs my mx m =
     (if mx < cs
      then if my < length m \<and> mx < length (m ! my)
           then physics_row k ns cs my (Suc mx)
                  (m[my := (m ! my)[mx := update_point k ns (m ! my ! mx)]])
           else Inl TypeError
      else Inr m)"
  by pat_completeness auto
termination
  by (relation "measure (\<lambda>(k, ns, cs, my, mx, m). cs - mx)") auto

function physics_rows ::
  "real \<Rightarrow> node list \<Rightarrow> nat \<Rightarrow> nat \<Rightarrow> nat \<Rightarrow> point list list \<Rightarrow> error + point list list"
where
  "physics_rows k ns cs rs my m =
     (if my < rs
      then case physics_row k ns cs my 0 m of
             Inl e \<Rightarrow> Inl e
           | Inr m' \<Rightarrow> physics_rows k ns cs rs (Suc my) m'
      else Inr m)"
  by pat_completeness auto
termination
  by (relation "measure (\<lambda>(k, ns, cs, rs, my, m). rs - my)") auto

declare physics_row.simps [simp del] physics_rows.simps [simp del]

definition mesh_physics :: "real \<Rightarrow> sketch \<Rightarrow> error + sketch" where
  "mesh_physics k st =
     (case physics_rows k (nodes st) (cols st) (rows st) 0 (mesh st) of
        Inl e \<Rightarrow> Inl e
      | Inr m \<Rightarrow> Inr (st\<lparr>mesh := m\<rparr>))"

text \<open>Repeated frames: \<open>n\<close> physics passes in a row.\<close>

fun physics_steps :: "real \<Rightarrow> nat \<Rightarrow> sketch \<Rightarrow> error + sketch" where
  "physics_steps k 0 st = Inr st"
| "physics_steps k (Suc n) st =
     (case mesh_physics k st of
        Inl e \<Rightarrow> Inl e
      | Inr st' \<Rightarrow> physics_steps k n st')"

text \<open>
  The same in-place update along an arbitrary traversal order of the mesh indices
  \<open>(y, x)\<close>; the loops of the source follow the raster order.
\<close>

fun physics_order ::
  "real \<Rightarrow> node list \<Rightarrow> (nat \<times> nat) list \<Rightarrow> point list list \<Rightarrow> error + point list list"
where
  "physics_order k ns [] m = Inr m"
| "physics_order k ns ((my, mx) # order) m =
     (if my < length m \<and> mx < length (m ! my)
      then physics_order k ns order (m[my := (m ! my)[mx := update_point k ns (m ! my ! mx)]])
      else Inl TypeError)"

definition raster :: "nat \<Rightarrow> nat \<Rightarrow> nat \<Rightarrow> (nat \<times> nat) list" where
  "raster cs rs my = List.product [my..<rs] [0..<cs]"

text \<open>
  The shape of the mesh that \<open>setup()\<close> builds: \<open>rows_\<close> rows of \<open>cols\<close> points each.
\<close>

definition mesh_ok :: "sketch \<Rightarrow> bool" where
  "mesh_ok st = (length (mesh st) = rows st \<and> list_all (\<lambda>r. length r = cols st) (mesh st))"

text \<open>The distance of a mesh point to its rest position.\<close>

definition rest_distance :: "point \<Rightarrow> real" where
  "rest_distance p = dist_p5 (x p) (y p) (rest_x p) (rest_y p)"

section \<open>The Voronoi pass of \<open>draw()\<close>\<close>

text \<open>
  \<^verbatim>\<open>let voronoiSites = nodes.map(n => ({x: n.x, y: n.y})); let cellMap = {}; let step = 16;\<close>
  The object \<open>cellMap\<close> is a map from the property \<open>minIdx\<close> to the array of the samples
  \<open>[x, y]\<close> pushed to it, in the order of the pushes.
\<close>

type_synonym cellmap = "int \<rightharpoonup> (int \<times> int) list"

definition voronoiSites :: "node list \<Rightarrow> pos list" where
  "voronoiSites ns = map (\<lambda>n. \<lparr>x = x n, y = y n\<rparr>) ns"

text \<open>
  The innermost loop \<^verbatim>\<open>for (let i = 0; i < voronoiSites.length; i++)\<close> with its
  accumulators \<open>minD\<close> and \<open>minIdx\<close>; \<open>nearest\<close> is the loop started from
  \<^verbatim>\<open>let minD = 1e9, minIdx = -1\<close>.
\<close>

function nearest_loop :: "pos list \<Rightarrow> int \<Rightarrow> int \<Rightarrow> nat \<Rightarrow> real \<times> int \<Rightarrow> real \<times> int" where
  "nearest_loop sites sx sy i (minD, minIdx) =
     (if i < length sites
      then let d = dist_p5 (real_of_int sx) (real_of_int sy) (x (sites ! i)) (y (sites ! i))
           in if d < minD
              then nearest_loop sites sx sy (Suc i) (d, int i)
              else nearest_loop sites sx sy (Suc i) (minD, minIdx)
      else (minD, minIdx))"
  by pat_completeness auto
termination
  by (relation "measure (\<lambda>(sites, sx, sy, i, acc). length sites - i)") auto

definition nearest :: "pos list \<Rightarrow> int \<Rightarrow> int \<Rightarrow> real \<times> int" where
  "nearest sites sx sy = nearest_loop sites sx sy 0 (1000000000, - 1)"

text \<open>
  \<^verbatim>\<open>if (!cellMap[minIdx]) cellMap[minIdx] = []; cellMap[minIdx].push([x, y]);\<close>
\<close>

definition push_cell :: "cellmap \<Rightarrow> int \<Rightarrow> int \<times> int \<Rightarrow> cellmap" where
  "push_cell cellMap minIdx s =
     (let cellMap = (if cellMap minIdx = None then cellMap(minIdx \<mapsto> []) else cellMap)
      in case cellMap minIdx of
           None \<Rightarrow> cellMap
         | Some l \<Rightarrow> cellMap(minIdx \<mapsto> l @ [s]))"

text \<open>
  The loops \<^verbatim>\<open>for (let x = -400; x < 400; x += step) for (let y = -250; y < 250; y += step)\<close>;
  \<open>voronoi\<close> is the whole pass, which returns \<open>cellMap\<close>.
\<close>

function voronoi_col :: "pos list \<Rightarrow> int \<Rightarrow> int \<Rightarrow> cellmap \<Rightarrow> cellmap" where
  "voronoi_col sites sx sy cellMap =
     (if sy < 250
      then let (minD, minIdx) = nearest sites sx sy
           in voronoi_col sites sx (sy + 16) (push_cell cellMap minIdx (sx, sy))
      else cellMap)"
  by pat_completeness auto
termination
  by (relation "measure (\<lambda>(sites, sx, sy, cellMap). nat (250 - sy))") auto

function voronoi_cols :: "pos list \<Rightarrow> int \<Rightarrow> cellmap \<Rightarrow> cellmap" where
  "voronoi_cols sites sx cellMap =
     (if sx < 400
      then voronoi_cols sites (sx + 16) (voronoi_col sites sx (- 250) cellMap)
      else cellMap)"
  by pat_completeness auto
termination
  by (relation "measure (\<lambda>(sites, sx, cellMap). nat (400 - sx))") auto

declare nearest_loop.simps [simp del] voronoi_col.simps [simp del] voronoi_cols.simps [simp del]

definition voronoi :: "node list \<Rightarrow> cellmap" where
  "voronoi ns = voronoi_cols (voronoiSites ns) (- 400) Map.empty"

section \<open>The reshuffle block of \<open>draw()\<close> in the sperm sketches\<close>

text \<open>
  p5's \<open>random(max)\<close> is \<open>rand * max\<close>, where \<open>rand\<close> is the next value of the underlying
  generator, a number in \<open>[0, 1)\<close>. The generator is an input of the model: \<open>rnd k\<close> is the
  value it gives at the \<open>k\<close>-th call of \<open>random\<close> within one run of the block.
\<close>

definition random1 :: "real \<Rightarrow> real \<Rightarrow> real" where
  "random1 r mx = r * mx"

text \<open>The module-level variables \<open>spermCells\<close>, \<open>lastShuffle\<close> and \<open>shuffleInterval\<close>.\<close>

record 'img swarm =
  spermCells :: "'img cell list"
  lastShuffle :: real

definition shuffleInterval :: real where
  "shuffleInterval = 111"

text \<open>
  \<open>spermCells[i]\<close> for a number \<open>i\<close> that is an integer: the element, or \<open>undefined\<close>
  (\<open>None\<close>) outside the array.
\<close>

definition cell_at :: "'a list \<Rightarrow> int \<Rightarrow> 'a option" where
  "cell_at cells i = (if 0 \<le> i \<and> i < int (length cells) then Some (cells ! nat i) else None)"

text \<open>
  \<^verbatim>\<open>let temp = spermCells[i].img; spermCells[i].img = spermCells[j].img; spermCells[j].img = temp;\<close>
  Reading or writing \<open>.img\<close> on \<open>undefined\<close> raises a \<open>TypeError\<close>. A function of this
  block returns the exception, if one was raised, together with \<open>spermCells\<close> as the
  exception leaves it.
\<close>

definition swap_img :: "'img cell list \<Rightarrow> int \<Rightarrow> int \<Rightarrow> error option \<times> 'img cell list" where
  "swap_img cells i j =
     (case cell_at cells i of
        None \<Rightarrow> (Some TypeError, cells)
      | Some ci \<Rightarrow>
          let temp = img ci in
          case cell_at cells j of
            None \<Rightarrow> (Some TypeError, cells)
          | Some cj \<Rightarrow>
              let cells = cells[nat i := ci\<lparr>img := img cj\<rparr>] in
              case cell_at cells j of
                None \<Rightarrow> (Some TypeError, cells)
              | Some cj' \<Rightarrow> (None, cells[nat j := cj'\<lparr>img := temp\<rparr>]))"

text \<open>
  \<^verbatim>\<open>for (let n = 0; n < swapsPerInterval; n++)\<close> with \<open>swapsPerInterval = 36\<close>; the two
  indices are \<open>floor(random(spermCells.length))\<close>.
\<close>

function shuffle_loop :: "(nat \<Rightarrow> real) \<Rightarrow> nat \<Rightarrow> 'img cell list \<Rightarrow> error option \<times> 'img cell list" where
  "shuffle_loop rnd n cells =
     (if n < 36
      then let i = \<lfloor>random1 (rnd (2 * n)) (real (length cells))\<rfloor>;
               j = \<lfloor>random1 (rnd (2 * n + 1)) (real (length cells))\<rfloor>
           in case swap_img cells i j of
                (Some e, cells') \<Rightarrow> (Some e, cells')
              | (None, cells') \<Rightarrow> shuffle_loop rnd (Suc n) cells'
      else (None, cells))"
  by pat_completeness auto
termination
  by (relation "measure (\<lambda>(rnd, n, cells). 36 - n)") auto

declare shuffle_loop.simps [simp del]

text \<open>
  The whole block, \<^verbatim>\<open>if (millis() - lastShuffle > shuffleInterval) { ... lastShuffle = millis(); }\<close>;
  \<open>t1\<close> and \<open>t2\<close> are the values of the two calls of \<open>millis()\<close>. Then the block over a
  sequence of frames, until a frame raises.
\<close>

definition reshuffle ::
  "real \<Rightarrow> real \<Rightarrow> (nat \<Rightarrow> real) \<Rightarrow> 'img swarm \<Rightarrow> error option \<times> 'img swarm" where
  "reshuffle t1 t2 rnd sw =
     (if t1 - lastShuffle sw > shuffleInterval
      then case shuffle_loop rnd 0 (spermCells sw) of
             (Some e, cells) \<Rightarrow> (Some e, sw\<lparr>spermCells := cells\<rparr>)
           | (None, cells) \<Rightarrow> (None, sw\<lparr>spermCells := cells, lastShuffle := t2\<rparr>)
      else (None, sw))"

fun reshuffle_frames ::
  "(real \<times> real \<times> (nat \<Rightarrow> real)) list \<Rightarrow> 'img swarm \<Rightarrow> error option \<times> 'img swarm" where
  "reshuffle_frames [] sw = (None, sw)"
| "reshuffle_frames ((t1, t2, rnd) # frames) sw =
     (case reshuffle t1 t2 rnd sw of
        (Some e, sw') \<Rightarrow> (Some e, sw')
      | (None, sw') \<Rightarrow> reshuffle_frames frames sw')"

section \<open>Placement of the sperm cells in \<open>setup()\<close> of the scatter sketch\<close>

text \<open>
  p5's \<open>random(min, max)\<close> is \<open>rand * (max - min) + min\<close>, after exchanging \<open>min\<close> and \<open>max\<close>
  when \<open>min > max\<close>. The generator \<open>rnd\<close> is an input as before; \<open>k\<close> counts the calls of
  \<open>random\<close> made so far in \<open>setup()\<close>.
\<close>

definition random2 :: "real \<Rightarrow> real \<Rightarrow> real \<Rightarrow> real" where
  "random2 r mn mx = (if mn > mx then r * (mn - mx) + mx else r * (mx - mn) + mn)"

text \<open>
  \<^verbatim>\<open>let conflict = false; for (let cell of spermCells) { if (dist(cell.x, cell.y,
  candidate.x, candidate.y) < minSpacing) { conflict = true; break; } }\<close> with
  \<open>minSpacing = 50\<close>.
\<close>

fun conflict :: "'img cell list \<Rightarrow> pos \<Rightarrow> bool" where
  "conflict [] candidate = False"
| "conflict (c # cells) candidate =
     (if dist_p5 (x c) (y c) (x candidate) (y candidate) < 50 then True
      else conflict cells candidate)"

text \<open>
  \<^verbatim>\<open>let candidate; let attempts = 0; while (attempts < 30) { ... if (!conflict) { break; }
  attempts++; }\<close> on a canvas of width \<open>w\<close> and height \<open>h\<close>, with \<open>marginX = marginY = 80\<close>.
  The loop returns \<open>candidate\<close> (\<open>None\<close> for \<open>undefined\<close>), \<open>attempts\<close> and the call counter.
\<close>

function place_attempts ::
  "(nat \<Rightarrow> real) \<Rightarrow> real \<Rightarrow> real \<Rightarrow> 'img cell list \<Rightarrow> nat \<Rightarrow> nat \<Rightarrow> pos option
   \<Rightarrow> pos option \<times> nat \<times> nat"
where
  "place_attempts rnd w h cells attempts k candidate =
     (if attempts < 30
      then let cx = random2 (rnd k) (- w / 2 + 80) (w / 2 - 80);
               cy = random2 (rnd (k + 1)) (- h / 2 + 80) (h / 2 - 80);
               candidate = \<lparr>x = cx, y = cy\<rparr>
           in if \<not> conflict cells candidate
              then (Some candidate, attempts, k + 2)
              else place_attempts rnd w h cells (Suc attempts) (k + 2) (Some candidate)
      else (candidate, attempts, k))"
  by pat_completeness auto
termination
  by (relation "measure (\<lambda>(rnd, w, h, cells, attempts, k, candidate). 30 - attempts)") auto

text \<open>
  \<^verbatim>\<open>for (let i = 0; i < desiredAssetCount; i++) { ...; spermCells.push({...}); }\<close> The
  fields of the pushed object are evaluated in the order of the source, five calls of
  \<open>random\<close> among them; \<open>assets[i % assets.length]\<close> is \<open>undefined\<close> for an empty \<open>assets\<close>.
  Next to \<open>spermCells\<close> the model returns, for every pushed cell, the value \<open>attempts\<close> had
  when its loop was left (the sketch does not store it); a value below 30 means that the
  cell was accepted by the \<open>break\<close>. \<open>setup_cells\<close> is the loop of the sketch, with
  \<open>desiredAssetCount = 800\<close>.
\<close>

function place_cells ::
  "(nat \<Rightarrow> real) \<Rightarrow> real \<Rightarrow> real \<Rightarrow> 'img list \<Rightarrow> nat \<Rightarrow> nat \<Rightarrow> nat
   \<Rightarrow> 'img option cell list \<times> nat list \<Rightarrow> error + 'img option cell list \<times> nat list"
where
  "place_cells rnd w h assets desired i k (cells, tries) =
     (if i < desired
      then case place_attempts rnd w h cells 0 k None of
             (None, attempts, k') \<Rightarrow> Inl TypeError
           | (Some candidate, attempts, k') \<Rightarrow>
               place_cells rnd w h assets desired (Suc i) (k' + 5)
                 (cells @
                  [\<lparr>x = x candidate, y = y candidate,
                    vx = random2 (rnd k') (- 1) 1,
                    vy = random2 (rnd (k' + 1)) (- 1) 1,
                    img = (if assets = [] then None else Some (assets ! (i mod length assets))),
                    meshIdx = None,
                    scale = random2 (rnd (k' + 2)) 0.3 0.5,
                    angle = random1 (rnd (k' + 3)) (2 * pi),
                    angleSpeed = random2 (rnd (k' + 4)) (- 0.02) 0.02\<rparr>],
                  tries @ [attempts])
      else Inr (cells, tries))"
  by pat_completeness auto
termination
  by (relation "measure (\<lambda>(rnd, w, h, assets, desired, i, k, acc). desired - i)") auto

declare place_attempts.simps [simp del] place_cells.simps [simp del]

definition setup_cells ::
  "(nat \<Rightarrow> real) \<Rightarrow> real \<Rightarrow> real \<Rightarrow> 'img list \<Rightarrow> error + 'img option cell list \<times> nat list" where
  "setup_cells rnd w h assets = place_cells rnd w h assets 800 0 0 ([], [])"

text \<open>
  The invariant of the two module-level variables \<open>nodes\<close> and \<open>keyToNode\<close>: every index
  stored in \<open>keyToNode\<close> is an index of \<open>nodes\<close>.
\<close>

definition key_map_ok :: "sketch \<Rightarrow> bool" where
  "key_map_ok st = (\<forall>k i. keyToNode st k = Some i \<longrightarrow> i < length (nodes st))"

section \<open>Auxiliary notions\<close>

text \<open>
  The mesh in which exactly the points at the indices of \<open>S\<close> have been updated by \<open>f\<close>.
\<close>

definition upd_at :: "('a \<Rightarrow> 'a) \<Rightarrow> (nat \<times> nat) set \<Rightarrow> 'a list list \<Rightarrow> 'a list list" where
  "upd_at f S m =
     map (\<lambda>j. map (\<lambda>i. if (j, i) \<in> S then f (m ! j ! i) else m ! j ! i) [0..<length (m ! j)])
       [0..<length m]"

text \<open>
  A quadratic form of a mesh point's offset from rest and velocity. Without node pull one
  physics step with spring coefficient \<open>k\<close> multiplies it by 0.88.
\<close>

definition spring_energy :: "real \<Rightarrow> point \<Rightarrow> real" where
  "spring_energy k p =
     (0.88 * k * (x p - rest_x p)\<^sup>2 + (0.12 - 0.88 * k) * (x p - rest_x p) * vx p + 0.88 * (vx p)\<^sup>2) +
     (0.88 * k * (y p - rest_y p)\<^sup>2 + (0.12 - 0.88 * k) * (y p - rest_y p) * vy p + 0.88 * (vy p)\<^sup>2)"

text \<open>
  The values of a loop counter that starts at \<open>lo\<close> and is advanced by 16 while it is below
  \<open>hi\<close>; the sample points of the Voronoi pass in the order of the scan; a node inside
  the domain \<open>[-400, 400] \<times> [-250, 250]\<close>, where \<open>setup()\<close> places every node; the distance
  of a sample to the \<open>j\<close>-th node.
\<close>

function steps16 :: "int \<Rightarrow> int \<Rightarrow> int list" where
  "steps16 lo hi = (if lo < hi then lo # steps16 (lo + 16) hi else [])"
  by pat_completeness auto
termination
  by (relation "measure (\<lambda>(lo, hi). nat (hi - lo))") auto

declare steps16.simps [simp del]

definition samples :: "(int \<times> int) list" where
  "samples = List.product (steps16 (- 400) 400) (steps16 (- 250) 250)"

definition in_domain :: "node \<Rightarrow> bool" where
  "in_domain nd = (- 400 \<le> x nd \<and> x nd \<le> 400 \<and> - 250 \<le> y nd \<and> y nd \<le> 250)"

definition sample_dist :: "node list \<Rightarrow> int \<times> int \<Rightarrow> nat \<Rightarrow> real" where
  "sample_dist ns s j = dist_p5 (real_of_int (fst s)) (real_of_int (snd s)) (x (ns ! j)) (y (ns ! j))"

text \<open>
  Every field of a sperm cell but \<open>img\<close>; a generator whose values all lie in \<open>[0, 1)\<close>.
\<close>

definition motion ::
  "'img cell \<Rightarrow> real \<times> real \<times> real \<times> real \<times> (nat \<times> nat) option \<times> real \<times> real \<times> real" where
  "motion c = (x c, y c, vx c, vy c, meshIdx c, scale c, angle c, angleSpeed c)"

definition unit_draws :: "(nat \<Rightarrow> real) \<Rightarrow> bool" where
  "unit_draws rnd = (\<forall>k. 0 \<le> rnd k \<and> rnd k < 1)"

text \<open>
  The invariant of the placement loop: a cell accepted by the \<open>break\<close> is at distance 50
  or more from every cell pushed before it.
\<close>

definition spaced :: "'img cell list \<Rightarrow> nat list \<Rightarrow> bool" where
  "spaced cells tries =
     (length tries = length cells \<and>
      (\<forall>a b. a < b \<and> b < length cells \<and> tries ! b < 30 \<longrightarrow>
         50 \<le> dist_p5 (x (cells ! a)) (y (cells ! a)) (x (cells ! b)) (y (cells ! b))))"

section \<open>Concrete states\<close>

text \<open>Small states on which the theorems below are instantiated.\<close>

definition two_pulls :: sketch where
  "two_pulls =
     \<lparr>cols = 1, rows = 1,
      mesh = [[\<lparr>x = 0, y = 0, vx = 0, vy = 0, rest_x = 1, rest_y = 0\<rparr>]],
      nodes = [\<lparr>x = 3, y = 4, force = 1\<rparr>, \<lparr>x = - 6, y = 8, force = 1\<rparr>,
               \<lparr>x = 300, y = 400, force = 1\<rparr>, \<lparr>x = 3, y = 4, force = 0\<rparr>],
      keyToNode = Map.empty\<rparr>"

definition scenario_sketch :: sketch where
  "scenario_sketch =
     \<lparr>cols = 20, rows = 14,
      mesh = replicate 14 (replicate 20 \<lparr>x = 100, y = 0, vx = 0, vy = 0, rest_x = 100, rest_y = 0\<rparr>),
      nodes = [\<lparr>x = 0, y = 0, force = 1\<rparr>],
      keyToNode = Map.empty\<rparr>"

definition four_points :: sketch where
  "four_points =
     \<lparr>cols = 2, rows = 2,
      mesh = [[\<lparr>x = 0, y = 0, vx = 0, vy = 0, rest_x = 0, rest_y = 0\<rparr>,
               \<lparr>x = 10, y = 0, vx = 1, vy = 0, rest_x = 8, rest_y = 0\<rparr>],
              [\<lparr>x = 0, y = 10, vx = 0, vy = 1, rest_x = 0, rest_y = 8\<rparr>,
               \<lparr>x = 10, y = 10, vx = 0, vy = 0, rest_x = 10, rest_y = 10\<rparr>]],
      nodes = [\<lparr>x = 3, y = 4, force = 1\<rparr>],
      keyToNode = Map.empty\<rparr>"

definition displaced :: sketch where
  "displaced =
     \<lparr>cols = 1, rows = 1,
      mesh = [[\<lparr>x = 1, y = 0, vx = 0, vy = 0, rest_x = 0, rest_y = 0\<rparr>]],
      nodes = [\<lparr>x = 200, y = 0, force = 0\<rparr>],
      keyToNode = Map.empty\<rparr>"

definition three_cells :: "string swarm" where
  "three_cells =
     \<lparr>spermCells =
        [\<lparr>x = 0, y = 0, vx = 1, vy = 0, img = ''line_1'', meshIdx = Some (0, 0), scale = 1, angle = 0, angleSpeed = 0\<rparr>,
         \<lparr>x = 5, y = 0, vx = 0, vy = 1, img = ''line_2'', meshIdx = Some (1, 0), scale = 1, angle = 1, angleSpeed = 0\<rparr>,
         \<lparr>x = 9, y = 0, vx = 0, vy = 0, img = ''line_3'', meshIdx = Some (2, 0), scale = 1, angle = 2, angleSpeed = 0\<rparr>],
      lastShuffle = 0\<rparr>"

definition first_low :: "nat \<Rightarrow> real" where
  "first_low k = (if k = 0 then 0 else 1 / 2)"

definition corner_then_centre :: "nat \<Rightarrow> real" where
  "corner_then_centre k = (if k < 2 then 0 else 1 / 2)"

definition placed_three :: "string option cell list" where
  "placed_three =
     [\<lparr>x = - 420, y = - 220, vx = 0, vy = 0, img = Some ''line_1'', meshIdx = None,
       scale = 2 / 5, angle = pi, angleSpeed = 0\<rparr>,
      \<lparr>x = 0, y = 0, vx = 0, vy = 0, img = Some ''line_1'', meshIdx = None,
       scale = 2 / 5, angle = pi, angleSpeed = 0\<rparr>,
      \<lparr>x = 0, y = 0, vx = 0, vy = 0, img = Some ''line_1'', meshIdx = None,
       scale = 2 / 5, angle = pi, angleSpeed = 0\<rparr>]"

chapter \<open>Properties\<close>

section \<open>Properties of the keyboard control\<close>

lemma setup_keys_ok:
  "(\<forall>k i. k2n k = Some i \<longrightarrow> i < length ns) \<Longrightarrow> setup_keys keys ny col (ns, k2n) = (ns', k2n') \<Longrightarrow>
   (\<forall>k i. k2n' k = Some i \<longrightarrow> i < length ns')"
proof (induction keys ny col "(ns, k2n)" arbitrary: ns k2n rule: setup_keys.induct)
  case (1 keys ny col ns k2n)
  show ?case
  proof (cases "col < length keys")
    case True
    let ?ns = "ns @ [\<lparr>x = map_p5 (real col) 0 (real (length keys) - 1) (-400) 400, y = ny, force = 0\<rparr>]"
    let ?k2n = "k2n([keys ! col] \<mapsto> length ?ns - 1)"
    have inv: "\<forall>k i. ?k2n k = Some i \<longrightarrow> i < length ?ns"
      using "1.prems"(1) by (auto simp: less_Suc_eq)
    have run: "setup_keys keys ny (Suc col) (?ns, ?k2n) = (ns', k2n')"
      using "1.prems"(2) True by (simp add: setup_keys.simps[of keys ny col] Let_def)
    show ?thesis
      by (rule "1.hyps"[OF True refl refl refl inv run])
  next
    case False
    with "1.prems" show ?thesis by (simp add: setup_keys.simps[of keys ny col])
  qed
qed

lemma setup_nodes_ok:
  "(\<forall>k i. snd acc k = Some i \<longrightarrow> i < length (fst acc)) \<Longrightarrow>
   (\<forall>k i. snd (setup_nodes krows row acc) k = Some i \<longrightarrow> i < length (fst (setup_nodes krows row acc)))"
proof (induction krows row acc rule: setup_nodes.induct)
  case (1 krows row acc)
  show ?case
  proof (cases "row < length krows")
    case True
    obtain ns k2n where acc: "acc = (ns, k2n)" by (cases acc)
    obtain ns' k2n' where r: "setup_keys (krows ! row)
                (map_p5 (real row) 0 (real (length krows) - 1) (-250) 250) 0 acc = (ns', k2n')"
      by (cases "setup_keys (krows ! row)
                (map_p5 (real row) 0 (real (length krows) - 1) (-250) 250) 0 acc")
    have "\<forall>k i. k2n' k = Some i \<longrightarrow> i < length ns'"
      using setup_keys_ok[of k2n ns _ _ _ ns' k2n'] "1.prems" r acc by simp
    then show ?thesis
      using "1.IH"[OF True] True r by (simp add: setup_nodes.simps[of krows row])
  next
    case False
    with "1.prems" show ?thesis by (simp add: setup_nodes.simps[of krows row])
  qed
qed

lemma setup_key_map_ok: "key_map_ok (setup_sketch st)"
  using setup_nodes_ok[of "([], Map.empty)" keyboardRows 0]
  by (auto simp add: key_map_ok_def setup_sketch_def Let_def split: prod.splits)

text \<open>
  On the keys whose lower-case form is not the name of an inherited property, in every
  state in which \<open>keyToNode\<close> holds indices of \<open>nodes\<close> (as after \<open>setup()\<close>, and kept by both
  handlers): \<open>keyPressed\<close> sets the force of the node mapped to the lower-cased key to 1
  and changes nothing when the key is not mapped; \<open>keyReleased\<close> does the same with 0;
  neither raises; pressing twice is pressing once, releasing twice is releasing once, and
  pressing then releasing ends in the state a release alone gives, in which the mapped
  node has force 0.
\<close>

lemma keyboard_control_other_keys:
  assumes "key_map_ok st" and "toLowerCase key \<notin> set object_prototype_names"
  shows "keyPressed toLowerCase key st =
           Inr (case keyToNode st (toLowerCase key) of
                  None \<Rightarrow> st
                | Some i \<Rightarrow> st\<lparr>nodes := (nodes st)[i := (nodes st ! i)\<lparr>force := 1\<rparr>]\<rparr>)
       \<and> keyReleased toLowerCase key st =
           Inr (case keyToNode st (toLowerCase key) of
                  None \<Rightarrow> st
                | Some i \<Rightarrow> st\<lparr>nodes := (nodes st)[i := (nodes st ! i)\<lparr>force := 0\<rparr>]\<rparr>)
       \<and> (\<exists>st1 st0. keyPressed toLowerCase key st = Inr st1 \<and> keyReleased toLowerCase key st = Inr st0
             \<and> key_map_ok st1 \<and> key_map_ok st0
             \<and> keyPressed toLowerCase key st1 = Inr st1
             \<and> keyReleased toLowerCase key st0 = Inr st0
             \<and> keyReleased toLowerCase key st1 = Inr st0
             \<and> (\<forall>i. keyToNode st (toLowerCase key) = Some i \<longrightarrow>
                    force (nodes st1 ! i) = 1 \<and> force (nodes st0 ! i) = 0))"
proof (cases "keyToNode st (toLowerCase key)")
  case None
  then have "keyPressed toLowerCase key st = Inr st" "keyReleased toLowerCase key st = Inr st"
    using assms(2) by (simp_all add: keyPressed_def keyReleased_def Let_def domIff)
  then show ?thesis
    using None assms(1) by simp
next
  case (Some i)
  let ?st1 = "st\<lparr>nodes := (nodes st)[i := (nodes st ! i)\<lparr>force := 1\<rparr>]\<rparr>"
  let ?st0 = "st\<lparr>nodes := (nodes st)[i := (nodes st ! i)\<lparr>force := 0\<rparr>]\<rparr>"
  have i: "i < length (nodes st)"
    using assms(1) Some by (simp add: key_map_ok_def)
  have run: "keyPressed toLowerCase key st = Inr ?st1" "keyReleased toLowerCase key st = Inr ?st0"
    using Some i by (simp_all add: keyPressed_def keyReleased_def Let_def domIff)
  have ok: "key_map_ok ?st1" "key_map_ok ?st0"
    using assms(1) by (simp_all add: key_map_ok_def)
  have again: "keyPressed toLowerCase key ?st1 = Inr ?st1" "keyReleased toLowerCase key ?st0 = Inr ?st0"
    "keyReleased toLowerCase key ?st1 = Inr ?st0"
    using Some i by (simp_all add: keyPressed_def keyReleased_def Let_def domIff)
  have f: "force (nodes ?st1 ! i) = 1" "force (nodes ?st0 ! i) = 0"
    using i by simp_all
  show ?thesis
    using Some run ok again f
    by (intro conjI exI[of _ ?st1] exI[of _ ?st0]) simp_all
qed


lemma keyboard_control_setup:
  "key_map_ok (setup_sketch initial)
   \<and> keyToNode (setup_sketch initial) (ascii_lower ''G'') = Some 14
   \<and> keyPressed ascii_lower ''G'' (setup_sketch initial) =
       Inr ((setup_sketch initial)\<lparr>nodes := (nodes (setup_sketch initial))[14 := (nodes (setup_sketch initial) ! 14)\<lparr>force := 1\<rparr>]\<rparr>)
   \<and> keyPressed ascii_lower ''1'' (setup_sketch initial) = Inr (setup_sketch initial)"
proof -
  have k: "keyToNode (setup_sketch initial) ''g'' = Some 14" "keyToNode (setup_sketch initial) ''1'' = None"
    by (simp_all add: setup_sketch_def initial_def keyboardRows_def Let_def setup_nodes.simps setup_keys.simps)
  have l: "ascii_lower ''G'' = ''g''" "ascii_lower ''1'' = ''1''"
    by (simp_all add: ascii_lower_def)
  have n: "''g'' \<notin> set object_prototype_names" "''1'' \<notin> set object_prototype_names"
    by (simp_all add: object_prototype_names_def)
  show ?thesis
    using keyboard_control_other_keys[OF setup_key_map_ok, of ascii_lower "''G''" initial]
       keyboard_control_other_keys[OF setup_key_map_ok, of ascii_lower "''1''" initial]
       k l n setup_key_map_ok[of initial]
    by simp
qed



section \<open>Properties of the mesh physics pass\<close>

subsection \<open>The pass is a pointwise update\<close>

lemma length_upd_at [simp]: "length (upd_at f S m) = length m"
  by (simp add: upd_at_def)

lemma length_upd_at_nth [simp]: "j < length m \<Longrightarrow> length (upd_at f S m ! j) = length (m ! j)"
  by (simp add: upd_at_def)

lemma upd_at_nth [simp]:
  "j < length m \<Longrightarrow> i < length (m ! j) \<Longrightarrow>
   upd_at f S m ! j ! i = (if (j, i) \<in> S then f (m ! j ! i) else m ! j ! i)"
  by (simp add: upd_at_def)

lemma length_nth_update2 [simp]:
  "a < length m \<Longrightarrow> length (m[j := (m ! j)[i := v]] ! a) = length (m ! a)"
  by (cases "a = j") simp_all

lemma upd_at_empty: "upd_at f {} m = m"
  by (simp add: list_eq_iff_nth_eq)

lemma upd_at_insert:
  assumes "j < length m" "i < length (m ! j)" "(j, i) \<notin> S"
  shows "upd_at f S (m[j := (m ! j)[i := f (m ! j ! i)]]) = upd_at f (insert (j, i) S) m"
proof (rule nth_equalityI)
  show "length (upd_at f S (m[j := (m ! j)[i := f (m ! j ! i)]])) = length (upd_at f (insert (j, i) S) m)"
    by simp
next
  fix a assume "a < length (upd_at f S (m[j := (m ! j)[i := f (m ! j ! i)]]))"
  then have a: "a < length m" by simp
  show "upd_at f S (m[j := (m ! j)[i := f (m ! j ! i)]]) ! a = upd_at f (insert (j, i) S) m ! a"
  proof (rule nth_equalityI)
    show "length (upd_at f S (m[j := (m ! j)[i := f (m ! j ! i)]]) ! a) = length (upd_at f (insert (j, i) S) m ! a)"
      using a by (simp add: nth_list_update)
  next
    fix b assume "b < length (upd_at f S (m[j := (m ! j)[i := f (m ! j ! i)]]) ! a)"
    then have b: "b < length (m ! a)" using a by (simp add: nth_list_update split: if_splits)
    show "upd_at f S (m[j := (m ! j)[i := f (m ! j ! i)]]) ! a ! b = upd_at f (insert (j, i) S) m ! a ! b"
      using a b assms by (auto simp: nth_list_update)
  qed
qed

lemma upd_at_all:
  assumes "\<And>j i. j < length m \<Longrightarrow> i < length (m ! j) \<Longrightarrow> (j, i) \<in> S"
  shows "upd_at f S m = map (map f) m"
  using assms by (simp add: list_eq_iff_nth_eq)

lemma physics_order_upd_at:
  "distinct order \<Longrightarrow> (\<forall>(j, i) \<in> set order. j < length m \<and> i < length (m ! j)) \<Longrightarrow>
   physics_order k ns order m = Inr (upd_at (update_point k ns) (set order) m)"
proof (induction order arbitrary: m)
  case Nil
  then show ?case by (simp add: upd_at_empty)
next
  case (Cons a order)
  obtain j i where a: "a = (j, i)" by (cases a)
  let ?m = "m[j := (m ! j)[i := update_point k ns (m ! j ! i)]]"
  have ji: "j < length m" "i < length (m ! j)" "(j, i) \<notin> set order"
    using Cons.prems a by auto
  have rng: "\<forall>(j', i') \<in> set order. j' < length ?m \<and> i' < length (?m ! j')"
    using Cons.prems(2) by (auto simp: nth_list_update)
  have "physics_order k ns order ?m = Inr (upd_at (update_point k ns) (set order) ?m)"
    using Cons.IH[OF _ rng] Cons.prems(1) by simp
  then show ?case
    using ji a by (simp add: upd_at_insert)
qed

lemma physics_order_append:
  "physics_order k ns (o1 @ o2) m =
     (case physics_order k ns o1 m of Inl e \<Rightarrow> Inl e | Inr m' \<Rightarrow> physics_order k ns o2 m')"
  by (induction o1 arbitrary: m) auto

lemma physics_row_order:
  "mx \<le> cs \<Longrightarrow> physics_row k ns cs my mx m = physics_order k ns (map (Pair my) [mx..<cs]) m"
proof (induction k ns cs my mx m rule: physics_row.induct)
  case (1 k ns cs my mx m)
  show ?case
  proof (cases "mx < cs")
    case True
    then show ?thesis
      using "1.IH" by (simp add: physics_row.simps[of k ns cs my mx] upt_conv_Cons)
  next
    case False
    then show ?thesis using "1.prems" by (subst physics_row.simps) simp
  qed
qed

lemma physics_rows_order:
  "my \<le> rs \<Longrightarrow> physics_rows k ns cs rs my m = physics_order k ns (raster cs rs my) m"
proof (induction k ns cs rs my m rule: physics_rows.induct)
  case (1 k ns cs rs my m)
  show ?case
  proof (cases "my < rs")
    case True
    have r: "raster cs rs my = map (Pair my) [0..<cs] @ raster cs rs (Suc my)"
      using True by (simp add: raster_def upt_conv_Cons)
    show ?thesis
      using True "1.IH"
      by (auto simp: physics_rows.simps[of k ns cs rs my] r physics_order_append physics_row_order
          split: sum.splits)
  next
    case False
    then show ?thesis using "1.prems" by (subst physics_rows.simps) (simp add: raster_def)
  qed
qed

lemma set_raster: "set (raster cs rs 0) = {..<rs} \<times> {..<cs}"
  by (auto simp: raster_def)

lemma distinct_raster: "distinct (raster cs rs my)"
  by (simp add: raster_def distinct_product)

lemma mesh_okD:
  "mesh_ok st \<Longrightarrow> length (mesh st) = rows st"
  "mesh_ok st \<Longrightarrow> j < rows st \<Longrightarrow> length (mesh st ! j) = cols st"
  by (auto simp: mesh_ok_def list_all_length)

lemma order_pointwise:
  assumes "mesh_ok st" "distinct order" "set order = {..<rows st} \<times> {..<cols st}"
  shows "physics_order k ns order (mesh st) = Inr (map (map (update_point k ns)) (mesh st))"
proof -
  have rng: "\<forall>(j, i) \<in> set order. j < length (mesh st) \<and> i < length (mesh st ! j)"
    using assms by (auto simp: mesh_okD)
  have "upd_at (update_point k ns) (set order) (mesh st) = map (map (update_point k ns)) (mesh st)"
    by (rule upd_at_all) (use assms in \<open>auto simp: mesh_okD\<close>)
  then show ?thesis
    using physics_order_upd_at[OF assms(2) rng] by simp
qed

lemma mesh_physics_pointwise:
  assumes "mesh_ok st"
  shows "mesh_physics k st = Inr (st\<lparr>mesh := map (map (update_point k (nodes st))) (mesh st)\<rparr>)"
  using order_pointwise[OF assms distinct_raster set_raster, of k "nodes st"]
  by (simp add: mesh_physics_def physics_rows_order)

subsection \<open>The mesh after \<open>setup()\<close>\<close>

lemma length_setup_mesh_row:
  "length (setup_mesh_row cs rs my mx meshRow) = length meshRow + (cs - mx)"
proof (induction cs rs my mx meshRow rule: setup_mesh_row.induct)
  case (1 cs rs my mx meshRow)
  show ?case
  proof (cases "mx < cs")
    case True
    then show ?thesis using "1.IH" by (subst setup_mesh_row.simps) simp
  next
    case False
    then show ?thesis by (subst setup_mesh_row.simps) simp
  qed
qed

lemma setup_mesh_shape:
  "list_all (\<lambda>r. length r = cs) m \<Longrightarrow>
   length (setup_mesh cs rs my m) = length m + (rs - my) \<and>
   list_all (\<lambda>r. length r = cs) (setup_mesh cs rs my m)"
proof (induction cs rs my m rule: setup_mesh.induct)
  case (1 cs rs my m)
  show ?case
  proof (cases "my < rs")
    case True
    have "list_all (\<lambda>r. length r = cs) (m @ [setup_mesh_row cs rs my 0 []])"
      using "1.prems" by (simp add: length_setup_mesh_row)
    from "1.IH"[OF True this] True show ?thesis
      by (subst (1 2) setup_mesh.simps) simp
  next
    case False
    then show ?thesis using "1.prems" by (subst (1 2) setup_mesh.simps) simp
  qed
qed

lemma setup_mesh_ok: "mesh st = [] \<Longrightarrow> mesh_ok (setup_sketch st)"
  using setup_mesh_shape[of "cols st" "[]" "rows st" 0]
  by (simp add: mesh_ok_def setup_sketch_def Let_def split: prod.splits)

lemma pull_nodes_sum:
  "pull_nodes ns p (fx, fy) =
     (fx + (\<Sum>nd\<leftarrow>filter (\<lambda>nd. force nd > 0 \<and> dist_p5 (x p) (y p) (x nd) (y nd) < 180) ns.
              (x nd - x p) * (3 * force nd * (180 - dist_p5 (x p) (y p) (x nd) (y nd)) / 180) * 0.01),
      fy + (\<Sum>nd\<leftarrow>filter (\<lambda>nd. force nd > 0 \<and> dist_p5 (x p) (y p) (x nd) (y nd) < 180) ns.
              (y nd - y p) * (3 * force nd * (180 - dist_p5 (x p) (y p) (x nd) (y nd)) / 180) * 0.01))"
  by (induction ns arbitrary: fx fy) (simp_all add: Let_def)

lemma update_point_fields:
  "vx (update_point k ns p) = (vx p + fst (pull_nodes ns p ((rest_x p - x p) * k, (rest_y p - y p) * k))) * 0.88"
  "vy (update_point k ns p) = (vy p + snd (pull_nodes ns p ((rest_x p - x p) * k, (rest_y p - y p) * k))) * 0.88"
  "x (update_point k ns p) = x p + vx (update_point k ns p)"
  "y (update_point k ns p) = y p + vy (update_point k ns p)"
  "rest_x (update_point k ns p) = rest_x p"
  "rest_y (update_point k ns p) = rest_y p"
  by (simp_all add: update_point_def Let_def split: prod.splits)

lemma mesh_ok_map:
  "mesh_ok st \<Longrightarrow> mesh_ok (st\<lparr>mesh := map (map f) (mesh st)\<rparr>)"
  by (simp add: mesh_ok_def list_all_length)

lemma mesh_physics_nth:
  assumes "mesh_ok st" "my < rows st" "mx < cols st"
  shows "\<exists>st'. mesh_physics k st = Inr st' \<and> nodes st' = nodes st \<and> mesh_ok st' \<and>
           mesh st' ! my ! mx = update_point k (nodes st) (mesh st ! my ! mx)"
proof -
  let ?st = "st\<lparr>mesh := map (map (update_point k (nodes st))) (mesh st)\<rparr>"
  have l: "my < length (mesh st)" "mx < length (mesh st ! my)"
    using assms by (simp_all only: mesh_okD)
  have "mesh ?st ! my ! mx = update_point k (nodes st) (mesh st ! my ! mx)"
    using l by simp
  then show ?thesis
    using mesh_physics_pointwise[OF assms(1), of k] mesh_ok_map[OF assms(1)] by auto
qed

lemma dist_p5_eq: "0 \<le> d \<Longrightarrow> (x2 - x1)\<^sup>2 + (y2 - y1)\<^sup>2 = d\<^sup>2 \<Longrightarrow> dist_p5 x1 y1 x2 y2 = d"
  by (simp add: dist_p5_def)

text \<open>
  Claim C1. On a mesh of \<open>rows_\<close> rows of \<open>cols\<close> points, one physics pass returns, and for
  every grid point \<open>p\<close> the total force is the spring term \<open>k * (rest - position)\<close> plus the
  sum, over the nodes with \<open>force > 0\<close> whose distance \<open>d\<close> to \<open>p\<close> is below 180, of
  \<open>(node - position) * (3 * force * (180 - d) / 180) * 0.01\<close>; the new velocity is
  \<open>(velocity + total force) * 0.88\<close> and the new position is the old position plus the new
  velocity. The rest position is unchanged.
\<close>

theorem grid_step_force:
  assumes "mesh_ok st" "my < rows st" "mx < cols st"
  shows "\<exists>st'. mesh_physics k st = Inr st' \<and>
    (let p = mesh st ! my ! mx;
         p' = mesh st' ! my ! mx;
         act = filter (\<lambda>nd. force nd > 0 \<and> dist_p5 (x p) (y p) (x nd) (y nd) < 180) (nodes st);
         total_fx = k * (rest_x p - x p) +
           (\<Sum>nd\<leftarrow>act. (x nd - x p) * (3 * force nd * (180 - dist_p5 (x p) (y p) (x nd) (y nd)) / 180) * 0.01);
         total_fy = k * (rest_y p - y p) +
           (\<Sum>nd\<leftarrow>act. (y nd - y p) * (3 * force nd * (180 - dist_p5 (x p) (y p) (x nd) (y nd)) / 180) * 0.01)
     in vx p' = (vx p + total_fx) * 0.88 \<and> vy p' = (vy p + total_fy) * 0.88 \<and>
        x p' = x p + vx p' \<and> y p' = y p + vy p' \<and>
        rest_x p' = rest_x p \<and> rest_y p' = rest_y p)"
proof -
  obtain st' where st': "mesh_physics k st = Inr st'"
    "mesh st' ! my ! mx = update_point k (nodes st) (mesh st ! my ! mx)"
    using mesh_physics_nth[OF assms] by blast
  have "k * (rest_x (mesh st ! my ! mx) - x (mesh st ! my ! mx)) = (rest_x (mesh st ! my ! mx) - x (mesh st ! my ! mx)) * k"
       "k * (rest_y (mesh st ! my ! mx) - y (mesh st ! my ! mx)) = (rest_y (mesh st ! my ! mx) - y (mesh st ! my ! mx)) * k"
    by simp_all
  then show ?thesis
    unfolding Let_def
    by (intro exI[of _ st'] conjI st'(1)) (simp_all only: st'(2) update_point_fields pull_nodes_sum fst_conv snd_conv)
qed

theorem grid_step_force_witness:
  "mesh_ok two_pulls \<and>
   (\<exists>st'. mesh_physics 0.08 two_pulls = Inr st' \<and>
      vx (mesh st' ! 0 ! 0) = - 11 / 5000 \<and> vy (mesh st' ! 0 ! 0) = 1133 / 3750 \<and>
      x (mesh st' ! 0 ! 0) = - 11 / 5000 \<and> y (mesh st' ! 0 ! 0) = 1133 / 3750)"
proof -
  have ok: "mesh_ok two_pulls"
    by (simp add: mesh_ok_def two_pulls_def)
  have d: "dist_p5 0 0 3 4 = 5" "dist_p5 0 0 (- 6) 8 = 10" "dist_p5 0 0 300 400 = 500"
    by (rule dist_p5_eq; simp)+
  show ?thesis
    using grid_step_force[OF ok, of 0 0 "0.08"] ok
    by (auto simp: two_pulls_def Let_def d)
qed

text \<open>
  Claim C3. A grid point at rest at \<open>(100, 0)\<close> with zero velocity, and exactly one active
  node, at \<open>(0, 0)\<close> with force 1: one physics pass with the coefficients of the mesh
  sketch (0.08, 3, 0.01, 0.88, radius 180) moves the point to \<open>x = 7412 / 75\<close>, strictly
  between 0 and 100.
\<close>

theorem scenario_one_attractor:
  assumes "mesh_ok st" "my < rows st" "mx < cols st"
    and "mesh st ! my ! mx = \<lparr>x = 100, y = 0, vx = 0, vy = 0, rest_x = 100, rest_y = 0\<rparr>"
    and "filter (\<lambda>nd. force nd > 0) (nodes st) = [\<lparr>x = 0, y = 0, force = 1\<rparr>]"
  shows "\<exists>st'. mesh_physics 0.08 st = Inr st' \<and>
           x (mesh st' ! my ! mx) = 7412 / 75 \<and>
           0 < x (mesh st' ! my ! mx) \<and> x (mesh st' ! my ! mx) < 100"
proof -
  let ?p = "\<lparr>x = 100, y = 0, vx = 0, vy = 0, rest_x = 100, rest_y = 0\<rparr> :: point"
  obtain st' where st': "mesh_physics 0.08 st = Inr st'"
    "mesh st' ! my ! mx = update_point 0.08 (nodes st) ?p"
    using mesh_physics_nth[OF assms(1-3), of "0.08"] assms(4) by auto
  have d: "dist_p5 100 0 0 0 = 100"
    by (rule dist_p5_eq) simp_all
  have "filter (\<lambda>nd. 0 < force nd \<and> dist_p5 100 0 (x nd) (y nd) < 180) (nodes st)
          = filter (\<lambda>nd. dist_p5 100 0 (x nd) (y nd) < 180) (filter (\<lambda>nd. force nd > 0) (nodes st))"
    by (simp add: conj_commute)
  also have "\<dots> = [\<lparr>x = 0, y = 0, force = 1\<rparr>]"
    by (simp add: assms(5) d)
  finally have act: "filter (\<lambda>nd. 0 < force nd \<and> dist_p5 100 0 (x nd) (y nd) < 180) (nodes st)
          = [\<lparr>x = 0, y = 0, force = 1\<rparr>]" .
  have "x (mesh st' ! my ! mx) = 7412 / 75"
    by (simp add: st'(2) update_point_fields pull_nodes_sum act d)
  then show ?thesis
    using st'(1) by simp
qed

theorem scenario_one_attractor_witness:
  "mesh_ok scenario_sketch \<and>
   (\<exists>st'. mesh_physics 0.08 scenario_sketch = Inr st' \<and>
           x (mesh st' ! 6 ! 12) = 7412 / 75 \<and>
           0 < x (mesh st' ! 6 ! 12) \<and> x (mesh st' ! 6 ! 12) < 100)"
proof -
  have ok: "mesh_ok scenario_sketch"
    by (simp add: mesh_ok_def scenario_sketch_def list_all_length)
  show ?thesis
    using scenario_one_attractor[OF ok, of 6 12] ok
    by (simp add: scenario_sketch_def)
qed

text \<open>
  Claim C9. The update of a point reads the point itself and the nodes only
  (\<^const>\<open>update_point\<close>), so the in-place pass along any traversal order that visits every
  index of the mesh once gives the pointwise update of all points; the loops of the
  source are the pass along the raster order, with the same result.
\<close>

theorem grid_step_order_independent:
  assumes "mesh_ok st" "distinct order" "set order = {..<rows st} \<times> {..<cols st}"
  shows "physics_order k (nodes st) order (mesh st) =
           Inr (map (map (update_point k (nodes st))) (mesh st))
       \<and> physics_rows k (nodes st) (cols st) (rows st) 0 (mesh st) =
           physics_order k (nodes st) (raster (cols st) (rows st) 0) (mesh st)
       \<and> mesh_physics k st = Inr (st\<lparr>mesh := map (map (update_point k (nodes st))) (mesh st)\<rparr>)"
  using order_pointwise[OF assms] mesh_physics_pointwise[OF assms(1)]
  by (simp add: physics_rows_order)

theorem grid_step_order_independent_witness:
  "mesh_ok four_points \<and> distinct ([(1, 1), (0, 1), (1, 0), (0, 0)] :: (nat \<times> nat) list) \<and>
   physics_order 0.08 (nodes four_points) [(1, 1), (0, 1), (1, 0), (0, 0)] (mesh four_points) =
     Inr (map (map (update_point 0.08 (nodes four_points))) (mesh four_points)) \<and>
   mesh_physics 0.08 four_points =
     Inr (four_points\<lparr>mesh := map (map (update_point 0.08 (nodes four_points))) (mesh four_points)\<rparr>)"
proof -
  have ok: "mesh_ok four_points"
    by (simp add: mesh_ok_def four_points_def)
  have s: "set ([(1, 1), (0, 1), (1, 0), (0, 0)] :: (nat \<times> nat) list) = {..<rows four_points} \<times> {..<cols four_points}"
    by (auto simp: four_points_def)
  have dd: "distinct ([(1, 1), (0, 1), (1, 0), (0, 0)] :: (nat \<times> nat) list)" by simp
  show ?thesis
    using grid_step_order_independent[OF ok dd s, of "0.08"] ok dd by simp
qed

subsection \<open>The mesh without active nodes\<close>

lemma pull_nodes_inactive:
  "\<forall>nd\<in>set ns. force nd = 0 \<Longrightarrow> pull_nodes ns p (fx, fy) = (fx, fy)"
  by (induction ns) simp_all

lemma update_point_inactive:
  assumes "\<forall>nd\<in>set ns. force nd = 0"
  shows "vx (update_point k ns p) = (vx p + (rest_x p - x p) * k) * 0.88"
    and "vy (update_point k ns p) = (vy p + (rest_y p - y p) * k) * 0.88"
    and "x (update_point k ns p) = x p + (vx p + (rest_x p - x p) * k) * 0.88"
    and "y (update_point k ns p) = y p + (vy p + (rest_y p - y p) * k) * 0.88"
  by (simp_all add: update_point_fields pull_nodes_inactive[OF assms])

lemma axis_energy_step:
  fixes e v k :: real
  shows "0.88 * k * (e + (v - e * k) * 0.88)\<^sup>2
         + (0.12 - 0.88 * k) * (e + (v - e * k) * 0.88) * ((v - e * k) * 0.88)
         + 0.88 * ((v - e * k) * 0.88)\<^sup>2
       = 0.88 * (0.88 * k * e\<^sup>2 + (0.12 - 0.88 * k) * e * v + 0.88 * v\<^sup>2)"
  by (simp add: power2_eq_square field_simps)

lemma spring_energy_step:
  assumes "\<forall>nd\<in>set ns. force nd = 0"
  shows "spring_energy k (update_point k ns p) = 0.88 * spring_energy k p"
proof -
  have ax: "x (update_point k ns p) - rest_x p = (x p - rest_x p) + (vx p - (x p - rest_x p) * k) * 0.88"
           "vx (update_point k ns p) = (vx p - (x p - rest_x p) * k) * 0.88"
    by (simp_all add: update_point_inactive[OF assms] algebra_simps)
  have ay: "y (update_point k ns p) - rest_y p = (y p - rest_y p) + (vy p - (y p - rest_y p) * k) * 0.88"
           "vy (update_point k ns p) = (vy p - (y p - rest_y p) * k) * 0.88"
    by (simp_all add: update_point_inactive[OF assms] algebra_simps)
  show ?thesis
    unfolding spring_energy_def update_point_fields(5,6) ax ay axis_energy_step
    by (simp add: algebra_simps)
qed

lemma update_point_funpow:
  assumes "\<forall>nd\<in>set ns. force nd = 0"
  shows "spring_energy k ((update_point k ns ^^ n) p) = 0.88 ^ n * spring_energy k p
       \<and> rest_x ((update_point k ns ^^ n) p) = rest_x p
       \<and> rest_y ((update_point k ns ^^ n) p) = rest_y p"
  by (induction n) (simp_all add: spring_energy_step[OF assms] update_point_fields)

lemma axis_energy_bound:
  fixes e v :: real
  shows "0.06 * e\<^sup>2 \<le> 0.88 * 0.08 * e\<^sup>2 + (0.12 - 0.88 * 0.08) * e * v + 0.88 * v\<^sup>2"
proof -
  have "0.88 * 0.08 * e\<^sup>2 + (0.12 - 0.88 * 0.08) * e * v + 0.88 * v\<^sup>2 - 0.06 * e\<^sup>2
          = 0.88 * (v + (31 / 1100) * e)\<^sup>2 + (146729 / 15125000) * e\<^sup>2"
    by (simp add: power2_eq_square field_simps)
  moreover have "0 \<le> 0.88 * (v + (31 / 1100) * e)\<^sup>2 + (146729 / 15125000) * e\<^sup>2"
    by simp
  ultimately show ?thesis by linarith
qed

lemma rest_distance_sq:
  "(rest_distance p)\<^sup>2 = (x p - rest_x p)\<^sup>2 + (y p - rest_y p)\<^sup>2"
  by (simp add: rest_distance_def dist_p5_def power2_commute)

lemma rest_distance_nonneg: "0 \<le> rest_distance p"
  by (simp add: rest_distance_def dist_p5_def)

lemma spring_energy_bound: "0.06 * (rest_distance p)\<^sup>2 \<le> spring_energy 0.08 p"
  using add_mono[OF axis_energy_bound[of "x p - rest_x p" "vx p"] axis_energy_bound[of "y p - rest_y p" "vy p"]]
  by (simp add: rest_distance_sq spring_energy_def distrib_left)

lemma physics_steps_pointwise:
  "mesh_ok st \<Longrightarrow>
   physics_steps k n st = Inr (st\<lparr>mesh := map (map (update_point k (nodes st) ^^ n)) (mesh st)\<rparr>)"
proof (induction n arbitrary: st)
  case 0
  then show ?case by (simp add: map_idI)
next
  case (Suc n)
  let ?st = "st\<lparr>mesh := map (map (update_point k (nodes st))) (mesh st)\<rparr>"
  have "physics_steps k (Suc n) st = physics_steps k n ?st"
    by (simp add: mesh_physics_pointwise[OF Suc.prems])
  also have "\<dots> = Inr (?st\<lparr>mesh := map (map (update_point k (nodes ?st) ^^ n)) (mesh ?st)\<rparr>)"
    by (rule Suc.IH[OF mesh_ok_map[OF Suc.prems]])
  also have "\<dots> = Inr (st\<lparr>mesh := map (map (update_point k (nodes st) ^^ Suc n)) (mesh st)\<rparr>)"
    by (simp add: funpow_Suc_right del: funpow.simps)
  finally show ?case .
qed

lemma dist_p5_axis: "dist_p5 a 0 0 0 = \<bar>a\<bar>"
  by (simp add: dist_p5_def)

text \<open>
  Claim C8, the part that fails. With the only node inactive, a point released one unit
  from its rest position with zero velocity is at distance about 0.046 from rest after
  six physics passes and at distance about 0.127 after seven: the damped spring
  overshoots, so the distance to rest is not monotone.
\<close>

theorem rest_distance_not_monotone:
  "physics_steps 0.08 6 displaced =
     Inr (displaced\<lparr>mesh := [[\<lparr>x = 2754933759148481 / 59604644775390625, y = 0,
                                vx = - 11540205733414644 / 59604644775390625, vy = 0,
                                rest_x = 0, rest_y = 0\<rparr>]]\<rparr>) \<and>
   physics_steps 0.08 7 displaced =
     Inr (displaced\<lparr>mesh := [[\<lparr>x = - 4746496639312786739 / 37252902984619140625, y = 0,
                                vx = - 6468330238780587364 / 37252902984619140625, vy = 0,
                                rest_x = 0, rest_y = 0\<rparr>]]\<rparr>) \<and>
   rest_distance \<lparr>x = 2754933759148481 / 59604644775390625, y = 0,
                  vx = - 11540205733414644 / 59604644775390625, vy = 0,
                  rest_x = 0, rest_y = 0\<rparr>
   < rest_distance \<lparr>x = - 4746496639312786739 / 37252902984619140625, y = 0,
                    vx = - 6468330238780587364 / 37252902984619140625, vy = 0,
                    rest_x = 0, rest_y = 0\<rparr>"
proof -
  have ok: "mesh_ok displaced"
    by (simp add: mesh_ok_def displaced_def)
  have n: "nodes displaced = [\<lparr>x = 200, y = 0, force = 0\<rparr>]"
    by (simp add: displaced_def)
  have m: "mesh displaced = [[\<lparr>x = 1, y = 0, vx = 0, vy = 0, rest_x = 0, rest_y = 0\<rparr>]]"
    by (simp add: displaced_def)
  show ?thesis
    by (simp add: physics_steps_pointwise[OF ok] n m eval_nat_numeral update_point_def
        rest_distance_def dist_p5_axis)
qed

text \<open>
  Claim C8, as amended. With every node's force 0, on a mesh of \<open>rows_\<close> rows of \<open>cols\<close>
  points and with the spring coefficient 0.08 of the mesh sketch, every number of physics
  passes returns, the rest positions never change, and every grid point comes, and stays,
  within any positive distance of its rest position after enough passes.
\<close>

theorem rest_convergence:
  assumes "mesh_ok st" and "\<forall>nd\<in>set (nodes st). force nd = 0"
    and "my < rows st" and "mx < cols st" and "0 < eps"
  shows "(\<forall>n. \<exists>st'. physics_steps 0.08 n st = Inr st' \<and>
           rest_x (mesh st' ! my ! mx) = rest_x (mesh st ! my ! mx) \<and>
           rest_y (mesh st' ! my ! mx) = rest_y (mesh st ! my ! mx))
       \<and> (\<exists>N. \<forall>n\<ge>N. \<exists>st'. physics_steps 0.08 n st = Inr st' \<and>
           rest_x (mesh st' ! my ! mx) = rest_x (mesh st ! my ! mx) \<and>
           rest_y (mesh st' ! my ! mx) = rest_y (mesh st ! my ! mx) \<and>
           rest_distance (mesh st' ! my ! mx) < eps)"
proof -
  let ?p = "mesh st ! my ! mx"
  let ?f = "update_point 0.08 (nodes st)"
  let ?E = "spring_energy 0.08 ?p"
  have l: "my < length (mesh st)" "mx < length (mesh st ! my)"
    using assms by (simp_all only: mesh_okD)
  have E0: "0 \<le> ?E"
  proof -
    have "0 \<le> 0.06 * (rest_distance ?p)\<^sup>2" by simp
    with spring_energy_bound[of ?p] show ?thesis by linarith
  qed
  have E1: "0 < ?E + 1"
    using E0 by linarith
  have "0 < 0.06 * eps\<^sup>2"
    using assms(5) by simp
  then have "0 < 0.06 * eps\<^sup>2 / (?E + 1)"
    using E1 by (rule divide_pos_pos)
  then obtain N where N: "(0.88::real) ^ N < 0.06 * eps\<^sup>2 / (?E + 1)"
    using real_arch_pow_inv[of "0.06 * eps\<^sup>2 / (?E + 1)" "0.88"] by auto
  have small: "rest_distance ((?f ^^ n) ?p) < eps" if "N \<le> n" for n
  proof -
    have "(0.88::real) ^ n \<le> 0.88 ^ N"
      using that by (simp add: power_decreasing)
    then have "0.88 ^ n * ?E \<le> 0.88 ^ N * (?E + 1)"
      by (rule mult_mono) (use E0 in simp_all)
    moreover have "0.88 ^ N * (?E + 1) < 0.06 * eps\<^sup>2"
      using N E1 by (simp only: pos_less_divide_eq)
    moreover have "0.06 * (rest_distance ((?f ^^ n) ?p))\<^sup>2 \<le> 0.88 ^ n * ?E"
      using spring_energy_bound[of "(?f ^^ n) ?p"] update_point_funpow[OF assms(2), of "0.08" n ?p]
      by simp
    ultimately have "0.06 * (rest_distance ((?f ^^ n) ?p))\<^sup>2 < 0.06 * eps\<^sup>2"
      by linarith
    then have "(rest_distance ((?f ^^ n) ?p))\<^sup>2 < eps\<^sup>2"
      by simp
    then show ?thesis
      by (rule power2_less_imp_less) (use assms(5) in simp)
  qed
  have always: "\<exists>st'. physics_steps 0.08 n st = Inr st' \<and>
           rest_x (mesh st' ! my ! mx) = rest_x (mesh st ! my ! mx) \<and>
           rest_y (mesh st' ! my ! mx) = rest_y (mesh st ! my ! mx)" for n
  proof -
    let ?st = "st\<lparr>mesh := map (map (?f ^^ n)) (mesh st)\<rparr>"
    have pt: "mesh ?st ! my ! mx = (?f ^^ n) ?p"
      using l by simp
    show ?thesis
      using physics_steps_pointwise[OF assms(1), of "0.08" n]
        update_point_funpow[OF assms(2), of "0.08" n ?p]
      by (intro exI[of _ ?st]) (simp only: pt simp_thms)
  qed
  have "\<exists>N. \<forall>n\<ge>N. \<exists>st'. physics_steps 0.08 n st = Inr st' \<and>
           rest_x (mesh st' ! my ! mx) = rest_x (mesh st ! my ! mx) \<and>
           rest_y (mesh st' ! my ! mx) = rest_y (mesh st ! my ! mx) \<and>
           rest_distance (mesh st' ! my ! mx) < eps"
  proof (intro exI[of _ N] allI impI)
    fix n assume n: "N \<le> n"
    let ?st = "st\<lparr>mesh := map (map (?f ^^ n)) (mesh st)\<rparr>"
    have pt: "mesh ?st ! my ! mx = (?f ^^ n) ?p"
      using l by simp
    show "\<exists>st'. physics_steps 0.08 n st = Inr st' \<and>
           rest_x (mesh st' ! my ! mx) = rest_x (mesh st ! my ! mx) \<and>
           rest_y (mesh st' ! my ! mx) = rest_y (mesh st ! my ! mx) \<and>
           rest_distance (mesh st' ! my ! mx) < eps"
      using physics_steps_pointwise[OF assms(1), of "0.08" n] small[OF n]
        update_point_funpow[OF assms(2), of "0.08" n ?p]
      by (intro exI[of _ ?st]) (simp only: pt simp_thms)
  qed
  with always show ?thesis
    by blast
qed

theorem rest_convergence_witness:
  "mesh_ok displaced \<and> map force (nodes displaced) = [0] \<and>
   (\<exists>N. \<forall>n\<ge>N. \<exists>st'. physics_steps 0.08 n displaced = Inr st' \<and>
           rest_x (mesh st' ! 0 ! 0) = 0 \<and> rest_y (mesh st' ! 0 ! 0) = 0 \<and>
           rest_distance (mesh st' ! 0 ! 0) < 1 / 1000)"
proof -
  have ok: "mesh_ok displaced"
    by (simp add: mesh_ok_def displaced_def)
  have inactive: "\<forall>nd\<in>set (nodes displaced). force nd = 0"
    by (simp add: displaced_def)
  show ?thesis
    using rest_convergence[OF ok inactive, of 0 0 "1 / 1000"] ok
    by (simp add: displaced_def)
qed

section \<open>Properties of the Voronoi pass\<close>

subsection \<open>The cells are the samples filtered by their assigned index\<close>

lemma push_cell_eq:
  "push_cell cm k s = cm(k \<mapsto> (case cm k of None \<Rightarrow> [] | Some l \<Rightarrow> l) @ [s])"
  by (simp add: push_cell_def Let_def split: option.splits)

lemma fold_push_cell:
  "fold (\<lambda>s cm. push_cell cm (a s) s) ss cm k =
     (if filter (\<lambda>s. a s = k) ss = [] then cm k
      else Some ((case cm k of None \<Rightarrow> [] | Some l \<Rightarrow> l) @ filter (\<lambda>s. a s = k) ss))"
  by (induction ss arbitrary: cm) (auto simp: push_cell_eq)

lemma voronoi_col_fold:
  "voronoi_col sites sx sy cm =
     fold (\<lambda>s cm. push_cell cm (snd (nearest sites (fst s) (snd s))) s) (map (Pair sx) (steps16 sy 250)) cm"
proof (induction sites sx sy cm rule: voronoi_col.induct)
  case (1 sites sx sy cm)
  show ?case
  proof (cases "sy < 250")
    case True
    obtain minD minIdx where n: "nearest sites sx sy = (minD, minIdx)"
      by (cases "nearest sites sx sy")
    show ?thesis
      using True "1.IH"[OF True n[symmetric] refl] n
      by (subst voronoi_col.simps, subst steps16.simps) simp
  next
    case False
    then show ?thesis
      by (subst voronoi_col.simps, subst steps16.simps) simp
  qed
qed

lemma voronoi_cols_fold:
  "voronoi_cols sites sx cm =
     fold (\<lambda>s cm. push_cell cm (snd (nearest sites (fst s) (snd s))) s)
       (List.product (steps16 sx 400) (steps16 (- 250) 250)) cm"
proof (induction sites sx cm rule: voronoi_cols.induct)
  case (1 sites sx cm)
  show ?case
  proof (cases "sx < 400")
    case True
    show ?thesis
      using True "1.IH"[OF True]
      by (subst voronoi_cols.simps, subst steps16.simps) (simp add: voronoi_col_fold)
  next
    case False
    then show ?thesis
      by (subst voronoi_cols.simps, subst steps16.simps) simp
  qed
qed

lemma voronoi_cells:
  "voronoi ns k =
     (if filter (\<lambda>s. snd (nearest (voronoiSites ns) (fst s) (snd s)) = k) samples = [] then None
      else Some (filter (\<lambda>s. snd (nearest (voronoiSites ns) (fst s) (snd s)) = k) samples))"
  by (simp add: voronoi_def voronoi_cols_fold fold_push_cell samples_def)

lemma set_steps16: "set (steps16 lo hi) = {a. lo \<le> a \<and> a < hi \<and> (a - lo) mod 16 = 0}"
proof (induction lo hi rule: steps16.induct)
  case (1 lo hi)
  show ?case
  proof (cases "lo < hi")
    case True
    have "{a. lo \<le> a \<and> a < hi \<and> (a - lo) mod 16 = 0}
            = insert lo {a. lo + 16 \<le> a \<and> a < hi \<and> (a - (lo + 16)) mod 16 = 0}"
      using True by (auto; presburger)
    then show ?thesis
      using True "1.IH"[OF True] by (subst steps16.simps) simp
  next
    case False
    then show ?thesis by (subst steps16.simps) auto
  qed
qed

lemma distinct_steps16: "distinct (steps16 lo hi)"
proof (induction lo hi rule: steps16.induct)
  case (1 lo hi)
  show ?case
  proof (cases "lo < hi")
    case True
    then show ?thesis
      using "1.IH"[OF True] by (subst steps16.simps) (simp add: set_steps16)
  next
    case False
    then show ?thesis by (subst steps16.simps) simp
  qed
qed

lemma distinct_samples: "distinct samples"
  by (simp add: samples_def distinct_product distinct_steps16)

lemma set_samples:
  "set samples = {(sx, sy). - 400 \<le> sx \<and> sx < 400 \<and> (sx + 400) mod 16 = 0
                       \<and> - 250 \<le> sy \<and> sy < 250 \<and> (sy + 250) mod 16 = 0}"
  by (auto simp: samples_def set_steps16)

lemma length_steps16: "lo \<le> hi \<Longrightarrow> length (steps16 lo hi) = nat ((hi - lo + 15) div 16)"
proof (induction lo hi rule: steps16.induct)
  case (1 lo hi)
  show ?case
  proof (cases "lo < hi")
    case True
    show ?thesis
    proof (cases "lo + 16 \<le> hi")
      case le: True
      then show ?thesis
        using True "1.IH"[OF True le] by (subst steps16.simps) (simp; presburger)
    next
      case gt: False
      then have "steps16 (lo + 16) hi = []" by (subst steps16.simps) simp
      then show ?thesis using True gt by (subst steps16.simps) (simp; presburger)
    qed
  next
    case False
    then show ?thesis using "1.prems" by (subst steps16.simps) simp
  qed
qed

lemma length_samples: "length samples = 1600"
  by (simp add: samples_def length_steps16)

subsection \<open>The index that the inner loop assigns\<close>

lemma nearest_loop_spec:
  assumes "nearest_loop sites sx sy i (mD, mI) = (rD, rI)"
  shows "(rD = mD \<and> rI = mI \<and>
          (\<forall>j. i \<le> j \<and> j < length sites \<longrightarrow>
             \<not> dist_p5 (real_of_int sx) (real_of_int sy) (x (sites ! j)) (y (sites ! j)) < mD))
       \<or> (\<exists>r. rI = int r \<and> i \<le> r \<and> r < length sites \<and>
             rD = dist_p5 (real_of_int sx) (real_of_int sy) (x (sites ! r)) (y (sites ! r)) \<and>
             rD < mD \<and>
             (\<forall>j. i \<le> j \<and> j < r \<longrightarrow>
                rD < dist_p5 (real_of_int sx) (real_of_int sy) (x (sites ! j)) (y (sites ! j))) \<and>
             (\<forall>j. r \<le> j \<and> j < length sites \<longrightarrow>
                rD \<le> dist_p5 (real_of_int sx) (real_of_int sy) (x (sites ! j)) (y (sites ! j))))"
  using assms
proof (induction sites sx sy i "(mD, mI)" arbitrary: mD mI rule: nearest_loop.induct)
  case (1 sites sx sy i minD minIdx)
  let ?d = "\<lambda>j. dist_p5 (real_of_int sx) (real_of_int sy) (x (sites ! j)) (y (sites ! j))"
  show ?case
  proof (cases "i < length sites")
    case False
    then show ?thesis
      using "1.prems" by (subst (asm) nearest_loop.simps) auto
  next
    case True
    show ?thesis
    proof (cases "?d i < minD")
      case lt: True
      have run: "nearest_loop sites sx sy (Suc i) (?d i, int i) = (rD, rI)"
        using "1.prems" True lt by (subst (asm) nearest_loop.simps) (simp add: Let_def)
      from "1.hyps"(1)[OF True refl lt run]
      show ?thesis
      proof (elim disjE conjE exE)
        assume a: "rD = ?d i" "rI = int i"
          "\<forall>j. Suc i \<le> j \<and> j < length sites \<longrightarrow> \<not> ?d j < ?d i"
        have "\<forall>j. i \<le> j \<and> j < length sites \<longrightarrow> rD \<le> ?d j"
        proof (intro allI impI)
          fix j assume j: "i \<le> j \<and> j < length sites"
          show "rD \<le> ?d j"
          proof (cases "j = i")
            case True
            then show ?thesis using a(1) by simp
          next
            case False
            then have "Suc i \<le> j \<and> j < length sites" using j by simp
            with a(3) have "\<not> ?d j < ?d i" by blast
            then show ?thesis using a(1) by simp
          qed
        qed
        then show ?thesis
          using a(1,2) True lt by (intro disjI2 exI[of _ i]) simp
      next
        fix r
        assume b: "rI = int r" "Suc i \<le> r" "r < length sites" "rD = ?d r" "rD < ?d i"
          "\<forall>j. Suc i \<le> j \<and> j < r \<longrightarrow> rD < ?d j"
          "\<forall>j. r \<le> j \<and> j < length sites \<longrightarrow> rD \<le> ?d j"
        have "\<forall>j. i \<le> j \<and> j < r \<longrightarrow> rD < ?d j"
        proof (intro allI impI)
          fix j assume j: "i \<le> j \<and> j < r"
          show "rD < ?d j"
          proof (cases "j = i")
            case True
            then show ?thesis using b(5) by simp
          next
            case False
            then have "Suc i \<le> j \<and> j < r" using j by simp
            with b(6) show ?thesis by blast
          qed
        qed
        moreover have "rD < minD"
          using b(5) lt by linarith
        ultimately show ?thesis
          using b(1-4,7) by (intro disjI2 exI[of _ r]) simp
      qed
    next
      case ge: False
      have run: "nearest_loop sites sx sy (Suc i) (minD, minIdx) = (rD, rI)"
        using "1.prems" True ge by (subst (asm) nearest_loop.simps) (simp add: Let_def)
      from "1.hyps"(2)[OF True refl ge run]
      show ?thesis
      proof (elim disjE conjE exE)
        assume a: "rD = minD" "rI = minIdx"
          "\<forall>j. Suc i \<le> j \<and> j < length sites \<longrightarrow> \<not> ?d j < minD"
        have "\<forall>j. i \<le> j \<and> j < length sites \<longrightarrow> \<not> ?d j < minD"
        proof (intro allI impI)
          fix j assume j: "i \<le> j \<and> j < length sites"
          show "\<not> ?d j < minD"
          proof (cases "j = i")
            case True
            then show ?thesis using ge by simp
          next
            case False
            then have "Suc i \<le> j \<and> j < length sites" using j by simp
            with a(3) show ?thesis by blast
          qed
        qed
        then show ?thesis using a(1,2) by simp
      next
        fix r
        assume b: "rI = int r" "Suc i \<le> r" "r < length sites" "rD = ?d r" "rD < minD"
          "\<forall>j. Suc i \<le> j \<and> j < r \<longrightarrow> rD < ?d j"
          "\<forall>j. r \<le> j \<and> j < length sites \<longrightarrow> rD \<le> ?d j"
        have "\<forall>j. i \<le> j \<and> j < r \<longrightarrow> rD < ?d j"
        proof (intro allI impI)
          fix j assume j: "i \<le> j \<and> j < r"
          show "rD < ?d j"
          proof (cases "j = i")
            case True
            then show ?thesis using b(5) ge by simp
          next
            case False
            then have "Suc i \<le> j \<and> j < r" using j by simp
            with b(6) show ?thesis by blast
          qed
        qed
        then show ?thesis
          using b by (intro disjI2 exI[of _ r]) simp
      qed
    qed
  qed
qed

lemma sample_dist_sites:
  "j < length ns \<Longrightarrow>
   dist_p5 (real_of_int (fst s)) (real_of_int (snd s)) (x (voronoiSites ns ! j)) (y (voronoiSites ns ! j))
     = sample_dist ns s j"
  by (simp add: sample_dist_def voronoiSites_def)

lemma nearest_cases:
  "(snd (nearest (voronoiSites ns) (fst s) (snd s)) = - 1 \<and>
      (\<forall>j<length ns. \<not> sample_dist ns s j < 1000000000))
   \<or> (\<exists>i<length ns. snd (nearest (voronoiSites ns) (fst s) (snd s)) = int i \<and>
         sample_dist ns s i < 1000000000 \<and>
         (\<forall>j<i. sample_dist ns s i < sample_dist ns s j) \<and>
         (\<forall>j<length ns. sample_dist ns s i \<le> sample_dist ns s j))"
proof -
  obtain rD rI where r: "nearest_loop (voronoiSites ns) (fst s) (snd s) 0 (1000000000, - 1) = (rD, rI)"
    by (cases "nearest_loop (voronoiSites ns) (fst s) (snd s) 0 (1000000000, - 1)")
  have len: "length (voronoiSites ns) = length ns"
    by (simp add: voronoiSites_def)
  from nearest_loop_spec[OF r] show ?thesis
  proof (elim disjE conjE exE)
    assume a: "rI = - 1"
      "\<forall>j. 0 \<le> j \<and> j < length (voronoiSites ns) \<longrightarrow>
         \<not> dist_p5 (real_of_int (fst s)) (real_of_int (snd s)) (x (voronoiSites ns ! j)) (y (voronoiSites ns ! j)) < 1000000000"
    have "\<forall>j<length ns. \<not> sample_dist ns s j < 1000000000"
      using a(2) len by (simp add: sample_dist_sites)
    then show ?thesis
      using a(1) r by (simp add: nearest_def)
  next
    fix i
    assume b: "rI = int i" "i < length (voronoiSites ns)"
      "rD = dist_p5 (real_of_int (fst s)) (real_of_int (snd s)) (x (voronoiSites ns ! i)) (y (voronoiSites ns ! i))"
      "rD < 1000000000"
      "\<forall>j. 0 \<le> j \<and> j < i \<longrightarrow>
         rD < dist_p5 (real_of_int (fst s)) (real_of_int (snd s)) (x (voronoiSites ns ! j)) (y (voronoiSites ns ! j))"
      "\<forall>j. i \<le> j \<and> j < length (voronoiSites ns) \<longrightarrow>
         rD \<le> dist_p5 (real_of_int (fst s)) (real_of_int (snd s)) (x (voronoiSites ns ! j)) (y (voronoiSites ns ! j))"
    have i: "i < length ns" using b(2) len by simp
    have rD: "rD = sample_dist ns s i" using b(3) i by (simp add: sample_dist_sites)
    have before: "\<forall>j<i. sample_dist ns s i < sample_dist ns s j"
      using b(5) i rD by (simp add: sample_dist_sites)
    have after: "\<forall>j. i \<le> j \<and> j < length ns \<longrightarrow> sample_dist ns s i \<le> sample_dist ns s j"
      using b(6) len rD by (simp add: sample_dist_sites)
    have "\<forall>j<length ns. sample_dist ns s i \<le> sample_dist ns s j"
    proof (intro allI impI)
      fix j assume j: "j < length ns"
      show "sample_dist ns s i \<le> sample_dist ns s j"
      proof (cases "j < i")
        case True
        with before show ?thesis by (simp add: less_imp_le)
      next
        case False
        with after j show ?thesis by simp
      qed
    qed
    then show ?thesis
      using b(1,4) r i rD before by (intro disjI2) (auto simp: nearest_def)
  qed
qed

lemma count_list_distinct_filter:
  "distinct ss \<Longrightarrow> s \<in> set ss \<Longrightarrow> P s \<Longrightarrow> count_list (filter P ss) s = 1"
  by (induction ss) auto

lemma nearest_empty: "nearest (voronoiSites []) sx sy = (1000000000, - 1)"
  by (simp add: nearest_def voronoiSites_def nearest_loop.simps)

text \<open>
  The scan of the nodes starts from \<open>minD = 1e9\<close> and \<open>minIdx = -1\<close>. For a sample
  \<open>(sx, sy)\<close> of the scan and nodes of which at least one is closer to the sample than
  \<open>1e9\<close>: the assigned index \<open>i\<close> is the index of a node; no node is closer to the sample
  than node \<open>i\<close>; every node before \<open>i\<close> in the scan is strictly farther; the sample is
  pushed exactly once to the cell of \<open>i\<close> and to no other cell.
\<close>

lemma voronoi_nearest_bounded:
  assumes "- 400 \<le> sx" "sx < 400" "(sx + 400) mod 16 = 0"
    and "- 250 \<le> sy" "sy < 250" "(sy + 250) mod 16 = 0"
    and "\<exists>j<length ns. sample_dist ns (sx, sy) j < 1000000000"
  shows "\<exists>i<length ns.
           snd (nearest (voronoiSites ns) sx sy) = int i
         \<and> (\<forall>j<length ns. sample_dist ns (sx, sy) i \<le> sample_dist ns (sx, sy) j)
         \<and> (\<forall>j<i. sample_dist ns (sx, sy) i < sample_dist ns (sx, sy) j)
         \<and> (\<exists>l. voronoi ns (int i) = Some l \<and> count_list l (sx, sy) = 1)
         \<and> (\<forall>k l. k \<noteq> int i \<and> voronoi ns k = Some l \<longrightarrow> (sx, sy) \<notin> set l)"
proof -
  let ?a = "\<lambda>s. snd (nearest (voronoiSites ns) (fst s) (snd s))"
  have mem: "(sx, sy) \<in> set samples"
    using assms(1-6) by (simp add: set_samples)
  from nearest_cases[of ns "(sx, sy)"] assms(7)
  obtain i where i: "i < length ns" "?a (sx, sy) = int i"
    "\<forall>j<i. sample_dist ns (sx, sy) i < sample_dist ns (sx, sy) j"
    "\<forall>j<length ns. sample_dist ns (sx, sy) i \<le> sample_dist ns (sx, sy) j"
    by auto
  have ne: "filter (\<lambda>s. ?a s = int i) samples \<noteq> []"
    using mem i(2) by (auto simp: filter_empty_conv intro!: bexI[of _ "(sx, sy)"])
  have cell: "voronoi ns (int i) = Some (filter (\<lambda>s. ?a s = int i) samples)"
    using ne by (simp add: voronoi_cells)
  have once: "count_list (filter (\<lambda>s. ?a s = int i) samples) (sx, sy) = 1"
    by (rule count_list_distinct_filter[OF distinct_samples mem]) (use i(2) in simp)
  have others: "(sx, sy) \<notin> set l" if "k \<noteq> int i \<and> voronoi ns k = Some l" for k l
  proof -
    have "l = filter (\<lambda>s. ?a s = k) samples"
      using that by (simp add: voronoi_cells split: if_splits)
    then show ?thesis
      using that i(2) by auto
  qed
  show ?thesis
    using i cell once others by (intro exI[of _ i]) auto
qed

lemma dist_p5_le_sum: "dist_p5 x1 y1 x2 y2 \<le> \<bar>x2 - x1\<bar> + \<bar>y2 - y1\<bar>"
  unfolding dist_p5_def by (rule sqrt_sum_squares_le_sum_abs)

lemma in_domain_near:
  assumes "in_domain (ns ! j)"
    and "- 400 \<le> sx" "sx < 400" "- 250 \<le> sy" "sy < 250"
  shows "sample_dist ns (sx, sy) j < 1000000000"
proof -
  have "\<bar>x (ns ! j) - real_of_int sx\<bar> \<le> 800" "\<bar>y (ns ! j) - real_of_int sy\<bar> \<le> 500"
    using assms by (auto simp: in_domain_def)
  then show ?thesis
    using dist_p5_le_sum[of "real_of_int sx" "real_of_int sy" "x (ns ! j)" "y (ns ! j)"]
    by (simp add: sample_dist_def)
qed

lemma setup_nodes_in_domain:
  "length (nodes (setup_sketch st)) = 26 \<and> list_all in_domain (nodes (setup_sketch st))"
  by (simp add: setup_sketch_def keyboardRows_def Let_def setup_nodes.simps setup_keys.simps
      map_p5_def in_domain_def)

text \<open>
  Claim C2. For every non-empty set of nodes inside the domain \<open>[-400, 400] \<times> [-250, 250]\<close>
  (\<open>setup()\<close> places every node there, and nothing moves a node) and every sample
  \<open>(sx, sy)\<close> of the 16-unit scan: the assigned index \<open>i\<close> is the index of a node; no node is
  closer to the sample than node \<open>i\<close>; every node before \<open>i\<close> in the scan is strictly
  farther, so the first minimum wins a tie; the sample is pushed exactly once to the cell
  of \<open>i\<close> and to no other cell.
\<close>

theorem voronoi_nearest_site:
  assumes "ns \<noteq> []" and "list_all in_domain ns"
    and "- 400 \<le> sx" "sx < 400" "(sx + 400) mod 16 = 0"
    and "- 250 \<le> sy" "sy < 250" "(sy + 250) mod 16 = 0"
  shows "\<exists>i<length ns.
           snd (nearest (voronoiSites ns) sx sy) = int i
         \<and> (\<forall>j<length ns. sample_dist ns (sx, sy) i \<le> sample_dist ns (sx, sy) j)
         \<and> (\<forall>j<i. sample_dist ns (sx, sy) i < sample_dist ns (sx, sy) j)
         \<and> (\<exists>l. voronoi ns (int i) = Some l \<and> count_list l (sx, sy) = 1)
         \<and> (\<forall>k l. k \<noteq> int i \<and> voronoi ns k = Some l \<longrightarrow> (sx, sy) \<notin> set l)"
proof -
  have "0 < length ns" using assms(1) by simp
  moreover have "in_domain (ns ! 0)"
    using assms(1,2) by (simp add: list_all_length)
  ultimately have "\<exists>j<length ns. sample_dist ns (sx, sy) j < 1000000000"
    using in_domain_near[of ns 0 sx sy] assms(3,4,6,7) by blast
  then show ?thesis
    by (rule voronoi_nearest_bounded[OF assms(3-8)])
qed

theorem voronoi_nearest_site_witness:
  "nodes (setup_sketch initial) \<noteq> [] \<and> list_all in_domain (nodes (setup_sketch initial)) \<and>
   snd (nearest (voronoiSites (nodes (setup_sketch initial))) (- 400) (- 250)) = 0 \<and>
   sample_dist (nodes (setup_sketch initial)) (- 400, - 250) 0 = 0 \<and>
   (\<exists>l. voronoi (nodes (setup_sketch initial)) 0 = Some l \<and> count_list l (- 400, - 250) = 1)"
proof -
  let ?ns = "nodes (setup_sketch initial)"
  have ne: "?ns \<noteq> []" and dom: "list_all in_domain ?ns"
    using setup_nodes_in_domain[of initial] by auto
  have q: "?ns ! 0 = \<lparr>x = - 400, y = - 250, force = 0\<rparr>"
    by (simp add: setup_sketch_def keyboardRows_def Let_def setup_nodes.simps setup_keys.simps
        map_p5_def)
  have d0: "sample_dist ?ns (- 400, - 250) 0 = 0"
    by (simp add: sample_dist_def q dist_p5_def)
  from voronoi_nearest_site[OF ne dom, of "- 400" "- 250"]
  obtain i where i: "i < length ?ns"
    "snd (nearest (voronoiSites ?ns) (- 400) (- 250)) = int i"
    "\<forall>j<i. sample_dist ?ns (- 400, - 250) i < sample_dist ?ns (- 400, - 250) j"
    "\<exists>l. voronoi ?ns (int i) = Some l \<and> count_list l (- 400, - 250) = 1"
    by auto
  have "0 \<le> sample_dist ?ns (- 400, - 250) i"
    by (simp add: sample_dist_def dist_p5_def)
  then have "i = 0"
    using i(3) d0 by (cases "i = 0") auto
  then show ?thesis
    using i ne dom d0 by simp
qed

text \<open>
  Claim C6, where it fails. Without nodes the returned map is not empty: every sample is
  pushed to the cell of the index \<open>-1\<close>.
\<close>

theorem voronoi_empty_sites_not_empty: "voronoi [] \<noteq> Map.empty"
proof -
  have ne: "samples \<noteq> []"
    using length_samples by auto
  have "voronoi [] (- 1) = Some samples"
    using ne by (simp add: voronoi_cells nearest_empty)
  then show ?thesis
    by (metis option.distinct(1))
qed

text \<open>
  Claim C6, as amended. Without nodes every sample is assigned the index \<open>-1\<close>, and the
  returned map has the single key \<open>-1\<close>, whose cell holds all 1600 samples of the scan.
\<close>

theorem voronoi_empty_sites:
  "voronoi [] = [- 1 \<mapsto> samples] \<and> length samples = 1600 \<and> distinct samples \<and>
   set samples = {(sx, sy). - 400 \<le> sx \<and> sx < 400 \<and> (sx + 400) mod 16 = 0
                         \<and> - 250 \<le> sy \<and> sy < 250 \<and> (sy + 250) mod 16 = 0} \<and>
   (\<forall>sx sy. snd (nearest (voronoiSites []) sx sy) = - 1)"
proof -
  have ne: "samples \<noteq> []"
    using length_samples by auto
  have "voronoi [] k = [- 1 \<mapsto> samples] k" for k
    using ne by (simp add: voronoi_cells nearest_empty)
  then have "voronoi [] = [- 1 \<mapsto> samples]"
    by (rule ext)
  then show ?thesis
    by (simp add: length_samples distinct_samples set_samples nearest_empty)
qed

section \<open>Properties of the reshuffle block\<close>

lemma swap_img_cases:
  "swap_img cells i j =
     (if 0 \<le> i \<and> i < int (length cells) \<and> 0 \<le> j \<and> j < int (length cells)
      then (None, cells[nat i := (cells ! nat i)\<lparr>img := img (cells ! nat j)\<rparr>,
                        nat j := ((cells[nat i := (cells ! nat i)\<lparr>img := img (cells ! nat j)\<rparr>]) ! nat j)
                                   \<lparr>img := img (cells ! nat i)\<rparr>])
      else (Some TypeError, cells))"
  by (simp add: swap_img_def cell_at_def Let_def)

lemma map_img_swap:
  assumes "a < length cells" "b < length cells"
  shows "map img (cells[a := (cells ! a)\<lparr>img := img (cells ! b)\<rparr>,
                        b := ((cells[a := (cells ! a)\<lparr>img := img (cells ! b)\<rparr>]) ! b)\<lparr>img := img (cells ! a)\<rparr>])
         = (map img cells)[a := map img cells ! b, b := map img cells ! a]"
  using assms by (simp add: map_update)

lemma map_motion_swap:
  assumes "a < length cells" "b < length cells"
  shows "map motion (cells[a := (cells ! a)\<lparr>img := u\<rparr>,
                           b := ((cells[a := (cells ! a)\<lparr>img := u\<rparr>]) ! b)\<lparr>img := w\<rparr>])
         = map motion cells"
  using assms
  by (intro nth_equalityI) (auto simp: nth_list_update motion_def)

lemma swap_img_preserves:
  assumes "swap_img cells i j = (e, cells')"
  shows "length cells' = length cells \<and> mset (map img cells') = mset (map img cells)
       \<and> map motion cells' = map motion cells"
proof (cases "0 \<le> i \<and> i < int (length cells) \<and> 0 \<le> j \<and> j < int (length cells)")
  case True
  then have ab: "nat i < length cells" "nat j < length cells" by auto
  have c: "cells' = cells[nat i := (cells ! nat i)\<lparr>img := img (cells ! nat j)\<rparr>,
                        nat j := ((cells[nat i := (cells ! nat i)\<lparr>img := img (cells ! nat j)\<rparr>]) ! nat j)
                                   \<lparr>img := img (cells ! nat i)\<rparr>]"
    using assms True by (simp add: swap_img_cases)
  have "mset (map img cells') = mset (map img cells)"
    unfolding c map_img_swap[OF ab]
    by (rule mset_swap) (use ab in simp_all)
  moreover have "map motion cells' = map motion cells"
    unfolding c by (rule map_motion_swap[OF ab])
  moreover have "length cells' = length cells"
    unfolding c by simp
  ultimately show ?thesis by simp
next
  case False
  have "swap_img cells i j = (Some TypeError, cells)"
    by (subst swap_img_cases) (simp only: False if_False)
  then have "cells' = cells"
    using assms by simp
  then show ?thesis by simp
qed

lemma shuffle_loop_preserves:
  "shuffle_loop rnd n cells = (e, cells') \<Longrightarrow>
   length cells' = length cells \<and> mset (map img cells') = mset (map img cells)
   \<and> map motion cells' = map motion cells"
proof (induction rnd n cells rule: shuffle_loop.induct)
  case (1 rnd n cells)
  show ?case
  proof (cases "n < 36")
    case False
    then show ?thesis
      using "1.prems" by (subst (asm) shuffle_loop.simps) simp
  next
    case True
    let ?i = "\<lfloor>random1 (rnd (2 * n)) (real (length cells))\<rfloor>"
    let ?j = "\<lfloor>random1 (rnd (2 * n + 1)) (real (length cells))\<rfloor>"
    obtain e1 cells1 where s: "swap_img cells ?i ?j = (e1, cells1)"
      by (cases "swap_img cells ?i ?j")
    note p = swap_img_preserves[OF s]
    show ?thesis
    proof (cases e1)
      case None
      have run: "shuffle_loop rnd (Suc n) cells1 = (e, cells')"
        using "1.prems" True s None by (subst (asm) shuffle_loop.simps) (simp add: Let_def)
      from "1.IH"[OF True refl refl s[symmetric, unfolded None] refl run] p
      show ?thesis by simp
    next
      case (Some err)
      have "cells' = cells1"
        using "1.prems" True s Some by (subst (asm) shuffle_loop.simps) (simp add: Let_def)
      then show ?thesis using p by simp
    qed
  qed
qed

lemma index_in_range:
  assumes "0 \<le> r" "r < 1" "0 < n"
  shows "0 \<le> \<lfloor>random1 r (real n)\<rfloor> \<and> \<lfloor>random1 r (real n)\<rfloor> < int n"
proof -
  have "0 \<le> r * real n" using assms by simp
  moreover have "r * real n < real n" using assms by simp
  ultimately show ?thesis
    by (simp add: random1_def floor_less_iff)
qed

lemma swap_img_in_range:
  assumes "0 \<le> i" "i < int (length cells)" "0 \<le> j" "j < int (length cells)"
  shows "fst (swap_img cells i j) = None"
  using assms by (simp add: swap_img_cases)

lemma shuffle_loop_total:
  "unit_draws rnd \<Longrightarrow> cells \<noteq> [] \<Longrightarrow> fst (shuffle_loop rnd n cells) = None"
proof (induction rnd n cells rule: shuffle_loop.induct)
  case (1 rnd n cells)
  show ?case
  proof (cases "n < 36")
    case False
    then show ?thesis by (subst shuffle_loop.simps) simp
  next
    case True
    let ?i = "\<lfloor>random1 (rnd (2 * n)) (real (length cells))\<rfloor>"
    let ?j = "\<lfloor>random1 (rnd (2 * n + 1)) (real (length cells))\<rfloor>"
    have pos: "0 < length cells" using "1.prems"(2) by simp
    have r: "0 \<le> rnd (2 * n)" "rnd (2 * n) < 1" "0 \<le> rnd (2 * n + 1)" "rnd (2 * n + 1) < 1"
      using "1.prems"(1) by (simp_all add: unit_draws_def)
    obtain e1 cells1 where s: "swap_img cells ?i ?j = (e1, cells1)"
      by (cases "swap_img cells ?i ?j")
    have "fst (swap_img cells ?i ?j) = None"
      using index_in_range[OF r(1,2) pos] index_in_range[OF r(3,4) pos]
      by (intro swap_img_in_range) simp_all
    then have e1: "e1 = None" using s by simp
    have "cells1 \<noteq> []"
      using swap_img_preserves[OF s] "1.prems"(2) by auto
    from "1.IH"[OF True refl refl s[symmetric, unfolded e1] refl "1.prems"(1) this]
    show ?thesis
      using True s e1 by (subst shuffle_loop.simps) (simp add: Let_def)
  qed
qed

lemma shuffle_loop_empty: "shuffle_loop rnd 0 [] = (Some TypeError, [])"
  by (subst shuffle_loop.simps) (simp add: swap_img_cases random1_def)

lemma reshuffle_preserves:
  assumes "reshuffle t1 t2 rnd sw = (e, sw')"
  shows "length (spermCells sw') = length (spermCells sw)
       \<and> mset (map img (spermCells sw')) = mset (map img (spermCells sw))
       \<and> map motion (spermCells sw') = map motion (spermCells sw)"
proof (cases "t1 - lastShuffle sw > shuffleInterval")
  case False
  then show ?thesis using assms by (simp add: reshuffle_def)
next
  case True
  obtain e1 cells1 where s: "shuffle_loop rnd 0 (spermCells sw) = (e1, cells1)"
    by (cases "shuffle_loop rnd 0 (spermCells sw)")
  have "spermCells sw' = cells1"
    using assms True s by (cases e1) (auto simp: reshuffle_def)
  then show ?thesis
    using shuffle_loop_preserves[OF s] by simp
qed

lemma reshuffle_frames_preserves:
  "reshuffle_frames frames sw = (e, sw') \<Longrightarrow>
   length (spermCells sw') = length (spermCells sw)
   \<and> mset (map img (spermCells sw')) = mset (map img (spermCells sw))
   \<and> map motion (spermCells sw') = map motion (spermCells sw)"
proof (induction frames arbitrary: sw)
  case Nil
  then show ?case by simp
next
  case (Cons f frames)
  obtain t1 t2 rnd where f: "f = (t1, t2, rnd)" by (cases f)
  obtain e1 sw1 where s: "reshuffle t1 t2 rnd sw = (e1, sw1)"
    by (cases "reshuffle t1 t2 rnd sw")
  note p = reshuffle_preserves[OF s]
  show ?case
  proof (cases e1)
    case None
    then have "reshuffle_frames frames sw1 = (e, sw')"
      using Cons.prems f s by simp
    from Cons.IH[OF this] p show ?thesis by simp
  next
    case (Some err)
    then have "sw' = sw1" using Cons.prems f s by simp
    then show ?thesis using p by simp
  qed
qed

lemma reshuffle_total:
  assumes "unit_draws rnd" "spermCells sw \<noteq> []"
  shows "fst (reshuffle t1 t2 rnd sw) = None"
proof -
  obtain e1 cells1 where s: "shuffle_loop rnd 0 (spermCells sw) = (e1, cells1)"
    by (cases "shuffle_loop rnd 0 (spermCells sw)")
  have "e1 = None"
    using shuffle_loop_total[OF assms, of 0] s by simp
  then show ?thesis
    using s by (simp add: reshuffle_def)
qed

lemma reshuffle_frames_total:
  "list_all (\<lambda>(t1, t2, rnd). unit_draws rnd) frames \<Longrightarrow> spermCells sw \<noteq> [] \<Longrightarrow>
   fst (reshuffle_frames frames sw) = None"
proof (induction frames arbitrary: sw)
  case Nil
  then show ?case by simp
next
  case (Cons f frames)
  obtain t1 t2 rnd where f: "f = (t1, t2, rnd)" by (cases f)
  obtain e1 sw1 where s: "reshuffle t1 t2 rnd sw = (e1, sw1)"
    by (cases "reshuffle t1 t2 rnd sw")
  have u: "unit_draws rnd" "list_all (\<lambda>(t1, t2, rnd). unit_draws rnd) frames"
    using Cons.prems(1) f by simp_all
  have e1: "e1 = None"
    using reshuffle_total[OF u(1) Cons.prems(2), of t1 t2] s by simp
  have "spermCells sw1 \<noteq> []"
    using reshuffle_preserves[OF s] Cons.prems(2) by auto
  from Cons.IH[OF u(2) this] show ?case
    using f s e1 by simp
qed

lemma swap_img_self: "cell_at cells i \<noteq> None \<Longrightarrow> swap_img cells i i = (None, cells)"
  by (auto simp: swap_img_cases cell_at_def split: if_splits)

lemma unit_draws_first_low: "unit_draws first_low"
  by (simp add: unit_draws_def first_low_def)

text \<open>
  Claim C5. For every swarm and every sequence of frames, with any values of the clock and
  of the generator: the reshuffle blocks leave the number of cells, the multiset of the
  \<open>img\<close> references and every other field of every cell (position, velocity, anchor,
  scale, angle, angular speed) as they were, whether or not a frame raises. On a
  non-empty swarm, with generator values in \<open>[0, 1)\<close>, no frame raises. A swap of a cell
  with itself returns without an exception and changes nothing.
\<close>

theorem reshuffle_preserves_swarm:
  "(case reshuffle_frames frames sw of
      (e, sw') \<Rightarrow>
        length (spermCells sw') = length (spermCells sw)
        \<and> mset (map img (spermCells sw')) = mset (map img (spermCells sw))
        \<and> map motion (spermCells sw') = map motion (spermCells sw))
   \<and> (spermCells sw \<noteq> [] \<and> list_all (\<lambda>(t1, t2, rnd). unit_draws rnd) frames
        \<longrightarrow> fst (reshuffle_frames frames sw) = None)
   \<and> (cell_at cells i \<noteq> None \<longrightarrow> swap_img cells i i = (None, cells))"
proof -
  obtain e sw' where r: "reshuffle_frames frames sw = (e, sw')"
    by (cases "reshuffle_frames frames sw")
  show ?thesis
    using reshuffle_frames_preserves[OF r] r reshuffle_frames_total[of frames sw]
    by (auto simp: swap_img_self)
qed

theorem reshuffle_preserves_swarm_witness:
  "unit_draws first_low \<and> spermCells three_cells \<noteq> [] \<and>
   fst (reshuffle_frames [(200, 201, first_low), (400, 402, first_low)] three_cells) = None \<and>
   mset (map img (spermCells (snd (reshuffle_frames [(200, 201, first_low), (400, 402, first_low)] three_cells))))
     = {#''line_1'', ''line_2'', ''line_3''#} \<and>
   swap_img (spermCells three_cells) 2 2 = (None, spermCells three_cells)"
proof -
  have ne: "spermCells three_cells \<noteq> []"
    by (simp add: three_cells_def)
  have c: "cell_at (spermCells three_cells) 2 \<noteq> None"
    by (simp add: three_cells_def cell_at_def)
  show ?thesis
    using reshuffle_preserves_swarm[where frames = "[(200, 201, first_low), (400, 402, first_low)]"
        and sw = three_cells and cells = "spermCells three_cells" and i = 2] ne c unit_draws_first_low
    by (auto simp: three_cells_def split: prod.splits)
qed

text \<open>
  Claim C10. With generator values in \<open>[0, 1)\<close>: on a non-empty swarm of \<open>n\<close> cells every
  drawn index \<open>floor(random(n))\<close> lies in \<open>[0, n)\<close> and the 36 swaps run without an
  exception; on the empty swarm every drawn index is 0, \<open>spermCells[0]\<close> is \<open>undefined\<close>, and
  the first swap raises a \<open>TypeError\<close>. So the swaps run to the end exactly when the swarm
  is non-empty.
\<close>

theorem reshuffle_total_iff_nonempty:
  assumes "unit_draws rnd"
  shows "(cells \<noteq> [] \<longrightarrow>
            (\<forall>k. 0 \<le> \<lfloor>random1 (rnd k) (real (length cells))\<rfloor>
                \<and> \<lfloor>random1 (rnd k) (real (length cells))\<rfloor> < int (length cells))
            \<and> fst (shuffle_loop rnd 0 cells) = None)
       \<and> (cells = [] \<longrightarrow>
            (\<forall>k. \<lfloor>random1 (rnd k) (real (length cells))\<rfloor> = 0)
            \<and> cell_at cells 0 = None
            \<and> shuffle_loop rnd 0 cells = (Some TypeError, cells))
       \<and> (fst (shuffle_loop rnd 0 cells) = None \<longleftrightarrow> cells \<noteq> [])"
proof -
  have a: "0 \<le> \<lfloor>random1 (rnd k) (real (length cells))\<rfloor>
           \<and> \<lfloor>random1 (rnd k) (real (length cells))\<rfloor> < int (length cells)" if "cells \<noteq> []" for k
    using assms that by (intro index_in_range) (simp_all add: unit_draws_def)
  have b: "fst (shuffle_loop rnd 0 cells) = None" if "cells \<noteq> []"
    using shuffle_loop_total[OF assms that] .
  have c: "shuffle_loop rnd 0 cells = (Some TypeError, cells)" if "cells = []"
    using that by (simp add: shuffle_loop_empty)
  show ?thesis
    using a b c by (auto simp: random1_def cell_at_def)
qed

theorem reshuffle_total_iff_nonempty_witness:
  "unit_draws first_low \<and>
   fst (shuffle_loop first_low 0 (spermCells three_cells)) = None \<and>
   \<lfloor>random1 (first_low 1) (real (length (spermCells three_cells)))\<rfloor> = 1 \<and>
   shuffle_loop first_low 0 ([] :: string cell list) = (Some TypeError, [])"
proof -
  have ne: "spermCells three_cells \<noteq> []"
    by (simp add: three_cells_def)
  have i: "\<lfloor>random1 (first_low 1) (real (length (spermCells three_cells)))\<rfloor> = 1"
    by (simp add: random1_def first_low_def three_cells_def)
  show ?thesis
    using reshuffle_total_iff_nonempty[OF unit_draws_first_low, of "spermCells three_cells"]
      reshuffle_total_iff_nonempty[OF unit_draws_first_low, of "[] :: string cell list"]
      ne i unit_draws_first_low
    by simp
qed

section \<open>Properties of the placement\<close>

lemma conflict_iff:
  "conflict cells candidate \<longleftrightarrow>
     (\<exists>c\<in>set cells. dist_p5 (x c) (y c) (x candidate) (y candidate) < 50)"
  by (induction cells) auto

lemma place_attempts_spec:
  assumes "place_attempts rnd w h cells attempts k candidate = (c, tried, k')"
  shows "(attempts < 30 \<or> candidate \<noteq> None \<longrightarrow> c \<noteq> None)
       \<and> (tried < 30 \<longrightarrow> (\<exists>cand. c = Some cand \<and> \<not> conflict cells cand))
       \<and> tried \<le> 30 \<or> (30 < attempts \<and> tried = attempts)"
  using assms
proof (induction rnd w h cells attempts k candidate rule: place_attempts.induct)
  case (1 rnd w h cells attempts k candidate)
  show ?case
  proof (cases "attempts < 30")
    case False
    then show ?thesis
      using "1.prems" by (subst (asm) place_attempts.simps) auto
  next
    case True
    let ?cand = "\<lparr>x = random2 (rnd k) (- w / 2 + 80) (w / 2 - 80),
                  y = random2 (rnd (k + 1)) (- h / 2 + 80) (h / 2 - 80)\<rparr>"
    show ?thesis
    proof (cases "conflict cells ?cand")
      case False
      then have "c = Some ?cand" "tried = attempts"
        using "1.prems" True by (subst (asm) place_attempts.simps; simp add: Let_def)+
      then show ?thesis using True False by simp
    next
      case c: True
      have run: "place_attempts rnd w h cells (Suc attempts) (k + 2) (Some ?cand) = (c, tried, k')"
        using "1.prems" True c by (subst (asm) place_attempts.simps) (simp add: Let_def)
      have "\<not> \<not> conflict cells ?cand" using c by simp
      from "1.IH"[OF True refl refl refl this run] True
      show ?thesis by auto
    qed
  qed
qed

lemma spaced_snoc:
  assumes "spaced cells tries"
    and "tried < 30 \<longrightarrow> (\<forall>c\<in>set cells. \<not> dist_p5 (x c) (y c) (x cell) (y cell) < 50)"
  shows "spaced (cells @ [cell]) (tries @ [tried])"
  unfolding spaced_def
proof (intro conjI allI impI)
  show "length (tries @ [tried]) = length (cells @ [cell])"
    using assms(1) by (simp add: spaced_def)
next
  fix a b
  assume ab: "a < b \<and> b < length (cells @ [cell]) \<and> (tries @ [tried]) ! b < 30"
  have len: "length tries = length cells"
    using assms(1) by (simp add: spaced_def)
  show "50 \<le> dist_p5 (x ((cells @ [cell]) ! a)) (y ((cells @ [cell]) ! a))
                 (x ((cells @ [cell]) ! b)) (y ((cells @ [cell]) ! b))"
  proof (cases "b < length cells")
    case True
    then have "tries ! b < 30" using ab len by (simp add: nth_append)
    then have "50 \<le> dist_p5 (x (cells ! a)) (y (cells ! a)) (x (cells ! b)) (y (cells ! b))"
      using assms(1) ab True by (simp add: spaced_def)
    then show ?thesis using ab True by (simp add: nth_append)
  next
    case False
    then have b: "b = length cells" using ab by simp
    then have "tried < 30" using ab len by (simp add: nth_append)
    moreover have "cells ! a \<in> set cells" using ab b by simp
    ultimately have "\<not> dist_p5 (x (cells ! a)) (y (cells ! a)) (x cell) (y cell) < 50"
      using assms(2) by blast
    then show ?thesis using ab b by (simp add: nth_append)
  qed
qed

lemma place_cells_spaced:
  "spaced cells tries \<Longrightarrow>
   \<exists>cells' tries'. place_cells rnd w h assets desired i k (cells, tries) = Inr (cells', tries')
      \<and> spaced cells' tries' \<and> length cells' = length cells + (desired - i)"
proof (induction rnd w h assets desired i k "(cells, tries)" arbitrary: cells tries
    rule: place_cells.induct)
  case (1 rnd w h assets desired i k cells tries)
  show ?case
  proof (cases "i < desired")
    case False
    then show ?thesis
      using "1.prems" by (subst place_cells.simps) simp
  next
    case True
    obtain c tried k' where pa: "place_attempts rnd w h cells 0 k None = (c, tried, k')"
      by (cases "place_attempts rnd w h cells 0 k None") auto
    from place_attempts_spec[OF pa]
    obtain cand where c: "c = Some cand"
      and ok: "tried < 30 \<longrightarrow> \<not> conflict cells cand"
      by auto
    let ?cell = "\<lparr>x = x cand, y = y cand,
                  vx = random2 (rnd k') (- 1) 1,
                  vy = random2 (rnd (k' + 1)) (- 1) 1,
                  img = (if assets = [] then None else Some (assets ! (i mod length assets))),
                  meshIdx = None,
                  scale = random2 (rnd (k' + 2)) 0.3 0.5,
                  angle = random1 (rnd (k' + 3)) (2 * pi),
                  angleSpeed = random2 (rnd (k' + 4)) (- 0.02) 0.02\<rparr>"
    have sp: "spaced (cells @ [?cell]) (tries @ [tried])"
      by (rule spaced_snoc[OF "1.prems"]) (use ok in \<open>simp add: conflict_iff\<close>)
    from "1.hyps"[OF True pa[unfolded c, symmetric] refl refl sp]
    obtain cells' tries' where r:
      "place_cells rnd w h assets desired (Suc i) (k' + 5) (cells @ [?cell], tries @ [tried]) = Inr (cells', tries')"
      "spaced cells' tries'" "length cells' = length (cells @ [?cell]) + (desired - Suc i)"
      by blast
    show ?thesis
      using True pa c r
      by (subst place_cells.simps) (auto intro!: exI[of _ cells'] exI[of _ tries'])
  qed
qed

lemma dist_p5_less_iff:
  "0 \<le> c \<Longrightarrow> dist_p5 x1 y1 x2 y2 < c \<longleftrightarrow> (x2 - x1)\<^sup>2 + (y2 - y1)\<^sup>2 < c\<^sup>2"
proof -
  assume c: "0 \<le> c"
  have "dist_p5 x1 y1 x2 y2 < c \<longleftrightarrow> sqrt ((x2 - x1)\<^sup>2 + (y2 - y1)\<^sup>2) < sqrt (c\<^sup>2)"
    using c by (simp add: dist_p5_def)
  then show ?thesis
    by (simp only: real_sqrt_less_iff)
qed

lemma place_three:
  "place_cells corner_then_centre 1000 600 [''line_1''] 3 0 0 ([], []) = Inr (placed_three, [0, 0, 30])"
  by (simp add: place_cells.simps place_attempts.simps corner_then_centre_def random2_def random1_def
      placed_three_def dist_p5_less_iff Let_def)

text \<open>
  Claim C7. For every generator, canvas size, asset list and number of cells, the placement
  loop returns (it never raises) with that many cells, and any two different cells that
  were both accepted without exhausting the 30 attempts are at distance 50 or more; indeed
  a cell accepted within the budget is that far from every cell placed before it. Nothing
  is promised for a cell placed after 30 failed attempts: in the run below the third cell
  is pushed on top of the second.
\<close>

theorem placement_spacing:
  "\<exists>cells tries.
     place_cells rnd w h assets desired 0 0 ([], []) = Inr (cells, tries)
     \<and> length cells = desired \<and> length tries = desired
     \<and> (\<forall>a b. a < desired \<and> b < desired \<and> a \<noteq> b \<and> tries ! a < 30 \<and> tries ! b < 30 \<longrightarrow>
           50 \<le> dist_p5 (x (cells ! a)) (y (cells ! a)) (x (cells ! b)) (y (cells ! b)))
     \<and> (\<forall>a b. a < b \<and> b < desired \<and> tries ! b < 30 \<longrightarrow>
           50 \<le> dist_p5 (x (cells ! a)) (y (cells ! a)) (x (cells ! b)) (y (cells ! b)))"
proof -
  have "spaced ([] :: 'a option cell list) []"
    by (simp add: spaced_def)
  from place_cells_spaced[OF this, of rnd w h assets desired 0 0]
  obtain cells tries where r:
    "place_cells rnd w h assets desired 0 0 ([], []) = Inr (cells, tries)"
    "spaced cells tries" "length cells = desired"
    by auto
  have later: "50 \<le> dist_p5 (x (cells ! a)) (y (cells ! a)) (x (cells ! b)) (y (cells ! b))"
    if "a < b" "b < desired" "tries ! b < 30" for a b
    using r(2,3) that by (simp add: spaced_def)
  have both: "50 \<le> dist_p5 (x (cells ! a)) (y (cells ! a)) (x (cells ! b)) (y (cells ! b))"
    if "a < desired" "b < desired" "a \<noteq> b" "tries ! a < 30" "tries ! b < 30" for a b
  proof (cases "a < b")
    case True
    then show ?thesis using later that by simp
  next
    case False
    then have "b < a" using that(3) by simp
    then have "50 \<le> dist_p5 (x (cells ! b)) (y (cells ! b)) (x (cells ! a)) (y (cells ! a))"
      using later that by simp
    then show ?thesis
      by (simp add: dist_p5_def power2_commute add.commute)
  qed
  show ?thesis
    using r later both by (intro exI[of _ cells] exI[of _ tries]) (simp add: spaced_def)
qed

theorem placement_spacing_witness:
  "place_cells corner_then_centre 1000 600 [''line_1''] 3 0 0 ([], []) = Inr (placed_three, [0, 0, 30]) \<and>
   50 \<le> dist_p5 (x (placed_three ! 0)) (y (placed_three ! 0)) (x (placed_three ! 1)) (y (placed_three ! 1)) \<and>
   dist_p5 (x (placed_three ! 1)) (y (placed_three ! 1)) (x (placed_three ! 2)) (y (placed_three ! 2)) = 0"
proof -
  from placement_spacing[of corner_then_centre 1000 600 "[''line_1'']" 3]
  obtain cells tries where r:
    "place_cells corner_then_centre 1000 600 [''line_1''] 3 0 0 ([], []) = Inr (cells, tries)"
    "\<forall>a b. a < 3 \<and> b < 3 \<and> a \<noteq> b \<and> tries ! a < 30 \<and> tries ! b < 30 \<longrightarrow>
       50 \<le> dist_p5 (x (cells ! a)) (y (cells ! a)) (x (cells ! b)) (y (cells ! b))"
    by blast
  have e: "cells = placed_three" "tries = [0, 0, 30]"
    using r(1) place_three by simp_all
  have "50 \<le> dist_p5 (x (cells ! 0)) (y (cells ! 0)) (x (cells ! 1)) (y (cells ! 1))"
    using r(2) e(2) by simp
  moreover have "dist_p5 (x (placed_three ! 1)) (y (placed_three ! 1)) (x (placed_three ! 2)) (y (placed_three ! 2)) = 0"
    by (simp add: placed_three_def dist_p5_def)
  ultimately show ?thesis
    using place_three e(1) by simp
qed


end
